theory Spec2Isabelle
  imports Main "HOL-Library.Multiset" "HOL-Library.List_Lexorder" "HOL-Library.AList"
begin

section \<open>Python strings\<close>

text \<open>
  The script \<^verbatim>\<open>batchdecrypt.py\<close> works on file names, manifest lines and paths.
  A Python \<^verbatim>\<open>str\<close> is modelled as a \<^typ>\<open>string\<close>; the characters are taken to be
  ASCII, so \<^verbatim>\<open>\d\<close> is one of \<^verbatim>\<open>0..9\<close>, \<^verbatim>\<open>str.strip()\<close> removes the ASCII white
  space and \<^verbatim>\<open>str.lower()\<close> maps \<^verbatim>\<open>A..Z\<close> to \<^verbatim>\<open>a..z\<close>. Paths are POSIX paths
  (\<^verbatim>\<open>os.path.join\<close> puts a slash between its arguments).
\<close>

definition dquote :: char where
  "dquote = CHR 0x22"

definition squote :: char where
  "squote = CHR 0x27"

definition newline :: char where
  "newline = CHR 0x0A"

definition is_digit :: "char \<Rightarrow> bool" where
  "is_digit c = (c \<in> set ''0123456789'')"

definition is_space :: "char \<Rightarrow> bool" where
  "is_space c = (c \<in> set [CHR 0x20, CHR 0x09, CHR 0x0A, CHR 0x0B, CHR 0x0C, CHR 0x0D,
                            CHR 0x1C, CHR 0x1D, CHR 0x1E, CHR 0x1F])"

text \<open>\<^verbatim>\<open>s.startswith(p)\<close> and \<^verbatim>\<open>sub in s\<close>.\<close>

definition startswith :: "string \<Rightarrow> string \<Rightarrow> bool" where
  "startswith s p = (take (length p) s = p)"

definition endswith :: "string \<Rightarrow> string \<Rightarrow> bool" where
  "endswith s p = (length p \<le> length s \<and> drop (length s - length p) s = p)"

fun contains :: "string \<Rightarrow> string \<Rightarrow> bool" where
  "contains sub [] = (sub = [])"
| "contains sub (c # cs) = (startswith (c # cs) sub \<or> contains sub cs)"

text \<open>\<^verbatim>\<open>s.strip()\<close> and \<^verbatim>\<open>s.strip(chars)\<close>: both ends, as many characters as match.\<close>

definition strip_where :: "(char \<Rightarrow> bool) \<Rightarrow> string \<Rightarrow> string" where
  "strip_where P s = rev (dropWhile P (rev (dropWhile P s)))"

definition py_strip :: "string \<Rightarrow> string" where
  "py_strip s = strip_where is_space s"

definition strip_chars :: "string \<Rightarrow> string \<Rightarrow> string" where
  "strip_chars cs s = strip_where (\<lambda>c. c \<in> set cs) s"

definition lower_char :: "char \<Rightarrow> char" where
  "lower_char c = (let n = (of_char c :: nat) in if 65 \<le> n \<and> n \<le> 90 then char_of (n + 32) else c)"

definition py_lower :: "string \<Rightarrow> string" where
  "py_lower s = map lower_char s"

text \<open>
  \<^verbatim>\<open>s.partition(sep)\<close>: the text before the first occurrence of \<open>sep\<close> and the text
  after it, or nothing when \<open>sep\<close> does not occur.
\<close>

fun partition_str :: "string \<Rightarrow> string \<Rightarrow> (string \<times> string) option" where
  "partition_str sep [] = (if sep = [] then Some ([], []) else None)"
| "partition_str sep (c # cs) =
     (if startswith (c # cs) sep then Some ([], drop (length sep) (c # cs))
      else map_option (\<lambda>(a, b). (c # a, b)) (partition_str sep cs))"

lemma partition_str_length:
  "partition_str sep s = Some (a, b) \<Longrightarrow> length a + length sep + length b = length s"
proof (induction s arbitrary: a)
  case Nil
  then show ?case by (simp split: if_splits)
next
  case (Cons c cs)
  show ?case
  proof (cases "startswith (c # cs) sep")
    case True
    with Cons.prems have "a = []" and "b = drop (length sep) (c # cs)" by simp_all
    moreover have "length sep \<le> length (c # cs)"
    proof -
      from True have "length (take (length sep) (c # cs)) = length sep"
        by (simp only: startswith_def)
      then show ?thesis by simp
    qed
    ultimately show ?thesis by simp
  next
    case False
    with Cons.prems obtain a' where "partition_str sep cs = Some (a', b)" and "a = c # a'"
      by auto
    with Cons.IH [of a'] show ?thesis by simp
  qed
qed

text \<open>
  \<^verbatim>\<open>s.split(sep)\<close> for a separator that is not empty (the script only splits at the
  literals \<^verbatim>\<open>"."\<close>, \<^verbatim>\<open>","\<close> and \<^verbatim>\<open>"segment"\<close>), and \<^verbatim>\<open>s.split(sep, 1)\<close>, which splits
  at the first occurrence only.
\<close>

function py_split :: "string \<Rightarrow> string \<Rightarrow> string list" where
  "py_split sep s =
     (if sep = [] then [s]
      else case partition_str sep s of
             None \<Rightarrow> [s]
           | Some (a, b) \<Rightarrow> a # py_split sep b)"
  by pat_completeness auto
termination
proof (relation "measure (\<lambda>(sep, s). length s)")
  show "wf (measure (\<lambda>(sep, s). length s))" by simp
next
  fix sep s :: string and x2 a b
  assume "sep \<noteq> []" and "partition_str sep s = Some x2" and "(a, b) = x2"
  then have "length a + length sep + length b = length s"
    using partition_str_length [of sep s a b] by simp
  with \<open>sep \<noteq> []\<close> show "((sep, b), (sep, s)) \<in> measure (\<lambda>(sep, s). length s)"
    by (cases sep) simp_all
qed

declare py_split.simps [simp del]

definition py_split1 :: "string \<Rightarrow> string \<Rightarrow> string list" where
  "py_split1 sep s = (case partition_str sep s of None \<Rightarrow> [s] | Some (a, b) \<Rightarrow> [a, b])"

text \<open>
  Exceptions are values: the class of the exception and the text \<^verbatim>\<open>str(e)\<close> that the
  script prints. A function that can raise returns \<open>error + 'a\<close>.
\<close>

datatype error =
    FileNotFoundError string
  | FileExistsError string
  | IsADirectoryError string
  | ValueError string
  | IndexError string
  | CalledProcessError string
  | RequestException string

fun str_of_error :: "error \<Rightarrow> string" where
  "str_of_error (FileNotFoundError m) = m"
| "str_of_error (FileExistsError m) = m"
| "str_of_error (IsADirectoryError m) = m"
| "str_of_error (ValueError m) = m"
| "str_of_error (IndexError m) = m"
| "str_of_error (CalledProcessError m) = m"
| "str_of_error (RequestException m) = m"

text \<open>\<^verbatim>\<open>xs[i]\<close> raises \<^verbatim>\<open>IndexError\<close> out of range (the script only uses indices 0 and 1).\<close>

definition py_index :: "'a list \<Rightarrow> nat \<Rightarrow> error + 'a" where
  "py_index xs i = (if i < length xs then Inr (xs ! i) else Inl (IndexError ''list index out of range''))"

text \<open>
  \<^verbatim>\<open>str(i)\<close> of a natural number (the f-strings format segment indices and counts), and
  \<^verbatim>\<open>int(s)\<close>: white space around the number, a sign, and single underscores between
  digits are accepted; everything else raises \<^verbatim>\<open>ValueError\<close>.
\<close>

definition digit_char :: "nat \<Rightarrow> char" where
  "digit_char d = ''0123456789'' ! d"

definition digit_val :: "char \<Rightarrow> nat" where
  "digit_val c = of_char c - 48"

function py_str :: "nat \<Rightarrow> string" where
  "py_str n = (if n < 10 then [digit_char n] else py_str (n div 10) @ [digit_char (n mod 10)])"
  by pat_completeness auto
termination
  by (relation "measure (\<lambda>n. n)") auto

declare py_str.simps [simp del]

definition digits_val :: "string \<Rightarrow> nat" where
  "digits_val ds = foldl (\<lambda>a c. 10 * a + digit_val c) 0 ds"

fun no_double_underscore :: "string \<Rightarrow> bool" where
  "no_double_underscore (a # b # cs) = (\<not> (a = CHR ''_'' \<and> b = CHR ''_'') \<and> no_double_underscore (b # cs))"
| "no_double_underscore cs = True"

definition valid_int_body :: "string \<Rightarrow> bool" where
  "valid_int_body b = (b \<noteq> [] \<and> is_digit (hd b) \<and> is_digit (last b)
      \<and> list_all (\<lambda>c. is_digit c \<or> c = CHR ''_'') b \<and> no_double_underscore b)"

definition py_int :: "string \<Rightarrow> error + int" where
  "py_int s =
     (let t = py_strip s;
          neg = (t \<noteq> [] \<and> hd t = CHR ''-'');
          body = (if t \<noteq> [] \<and> (hd t = CHR ''-'' \<or> hd t = CHR ''+'') then tl t else t)
      in if valid_int_body body
         then Inr ((if neg then - 1 else 1) * int (digits_val (filter (\<lambda>c. c \<noteq> CHR ''_'') body)))
         else Inl (ValueError (''invalid literal for int() with base 10: '' @ [squote] @ s @ [squote])))"

text \<open>\<^verbatim>\<open>bytes.hex()\<close>: two lower-case hexadecimal digits for each byte.\<close>

definition hex_digit :: "nat \<Rightarrow> char" where
  "hex_digit d = ''0123456789abcdef'' ! d"

definition hex :: "string \<Rightarrow> string" where
  "hex bs = concat (map (\<lambda>c. [hex_digit (of_char c div 16), hex_digit (of_char c mod 16)]) bs)"

text \<open>
  \<^verbatim>\<open>os.path.join(a, b)\<close>, \<^verbatim>\<open>os.path.basename(p)\<close> and the directory part of a path
  (the text before the last slash).
\<close>

definition path_join :: "string \<Rightarrow> string \<Rightarrow> string" where
  "path_join a b =
     (if startswith b ''/'' then b
      else if a = [] \<or> endswith a ''/'' then a @ b
      else a @ ''/'' @ b)"

definition basename :: "string \<Rightarrow> string" where
  "basename p = rev (takeWhile (\<lambda>c. c \<noteq> CHR ''/'') (rev p))"

definition dirname :: "string \<Rightarrow> string" where
  "dirname p = rev (tl (dropWhile (\<lambda>c. c \<noteq> CHR ''/'') (rev p)))"

text \<open>
  Iterating over a text file yields its lines, each with its line end; \<^verbatim>\<open>\r\n\<close> and
  \<^verbatim>\<open>\r\<close> are read as \<^verbatim>\<open>\n\<close> (universal newlines).
\<close>

fun readlines_acc :: "string \<Rightarrow> string \<Rightarrow> string list" where
  "readlines_acc acc [] = (if acc = [] then [] else [rev acc])"
| "readlines_acc acc (c # cs) =
     (if c = CHR 0x0A then rev (CHR 0x0A # acc) # readlines_acc [] cs
      else if c = CHR 0x0D then
        (case cs of
           d # ds \<Rightarrow> if d = CHR 0x0A then rev (CHR 0x0A # acc) # readlines_acc [] ds
                     else rev (CHR 0x0A # acc) # readlines_acc [] cs
         | [] \<Rightarrow> rev (CHR 0x0A # acc) # readlines_acc [] cs)
      else readlines_acc (c # acc) cs)"

definition readlines :: "string \<Rightarrow> string list" where
  "readlines content = readlines_acc [] content"

section \<open>The manifest file name pattern\<close>

text \<open>
  \<^verbatim>\<open>re.match(r'^(.+?)(\d+\.\d+)\.m3u8$', filename)\<close>. The first group is lazy: the
  matcher tries a base name of one character, then two, and so on (a base name never
  holds a line feed), and takes the first one after which the rest of the name is
  digits, a dot, digits and \<^verbatim>\<open>.m3u8\<close>; \<^verbatim>\<open>$\<close> also matches before a final line feed.
  \<open>version_tail\<close> matches \<^verbatim>\<open>(\d+\.\d+)\.m3u8$\<close> against the rest and returns the second group.
\<close>

definition version_tail :: "string \<Rightarrow> string option" where
  "version_tail s =
     (let d1 = takeWhile is_digit s; r1 = dropWhile is_digit s in
      case r1 of
        [] \<Rightarrow> None
      | c # r2 \<Rightarrow>
          (let d2 = takeWhile is_digit r2; r3 = dropWhile is_digit r2 in
           if c = CHR ''.'' \<and> d1 \<noteq> [] \<and> d2 \<noteq> [] \<and> (r3 = ''.m3u8'' \<or> r3 = ''.m3u8'' @ [CHR 0x0A])
           then Some (d1 @ ''.'' @ d2) else None))"

fun match_from :: "string \<Rightarrow> string \<Rightarrow> (string \<times> string) option" where
  "match_from base [] = None"
| "match_from base (c # cs) =
     (if c = CHR 0x0A then None
      else case version_tail cs of
             Some v \<Rightarrow> Some (base @ [c], v)
           | None \<Rightarrow> match_from (base @ [c]) cs)"

definition match_filename :: "string \<Rightarrow> (string \<times> string) option" where
  "match_filename filename = match_from [] filename"

section \<open>The world of a run\<close>

text \<open>
  The script reads and writes files, prints, fetches URLs and runs two external tools.
  A \<open>world\<close> holds what a run can observe and change:
  \<^item> \<open>fs\<close>, the file system: an association list from paths to nodes (a directory, or a
    regular file with its contents);
  \<^item> \<open>trace\<close>, everything the run has printed and every call it has made to the network or
    to an external tool, in order;
  \<^item> the external collaborators, as functions the run cannot see into: \<open>fetch\<close> is
    \<^verbatim>\<open>requests.get\<close> followed by \<^verbatim>\<open>raise_for_status\<close>, \<open>decrypt\<close> is what
    \<^verbatim>\<open>openssl aes-128-cbc -d\<close> computes from a ciphertext, an IV and a key, and
    \<open>concatenate\<close> is what \<^verbatim>\<open>ffmpeg -f concat\<close> computes from the text of the file list and
    the file system it reads the listed files from;
  \<^item> \<open>listing_order\<close>, the order in which \<^verbatim>\<open>glob.glob\<close> enumerates the entries of a
    directory, and \<open>completion_order\<close>, the order in which the jobs of the thread pool
    complete. Neither is under the script's control;
  \<^item> \<open>removal_refused\<close>, the entries that the system does not let the run remove (a file
    that cannot be unlinked, a directory that cannot be removed, every path under a
    workspace that is a symbolic link).
\<close>

datatype node = Dir | File string

datatype event =
    Print string
  | Report string nat
  | Fetch nat string
  | Openssl string string string string
  | Ffmpeg string string

record world =
  fs :: "(string \<times> node) list"
  trace :: "event list"
  fetch :: "string \<Rightarrow> error + string"
  decrypt :: "string \<Rightarrow> string \<Rightarrow> string \<Rightarrow> error + string"
  concatenate :: "string \<Rightarrow> (string \<times> node) list \<Rightarrow> error + string"
  listing_order :: "string list \<Rightarrow> string list"
  completion_order :: "(nat \<times> string) list \<Rightarrow> (nat \<times> string) list"
  removal_refused :: "string \<Rightarrow> bool"

definition print :: "world \<Rightarrow> string \<Rightarrow> world" where
  "print w s = w\<lparr>trace := trace w @ [Print s]\<rparr>"

definition record_event :: "world \<Rightarrow> event \<Rightarrow> world" where
  "record_event w e = w\<lparr>trace := trace w @ [e]\<rparr>"

subsection \<open>File system operations\<close>

text \<open>\<^verbatim>\<open>os.path.exists(p)\<close>.\<close>

definition path_exists :: "(string \<times> node) list \<Rightarrow> string \<Rightarrow> bool" where
  "path_exists f p = (map_of f p \<noteq> None)"

text \<open>
  \<^verbatim>\<open>shutil.rmtree(p, ignore_errors=True)\<close>: the call removes what it can of the tree of a
  directory. An entry whose removal the system refuses stays, and so does every
  directory above it, which is not empty then; the errors are ignored. On anything that
  is not a directory the call fails and the failure is ignored.
\<close>

definition below :: "string \<Rightarrow> string \<Rightarrow> bool" where
  "below p q = (q = p \<or> startswith q (p @ ''/''))"

definition stays :: "(string \<Rightarrow> bool) \<Rightarrow> (string \<times> node) list \<Rightarrow> string \<Rightarrow> bool" where
  "stays refused f q = list_ex (\<lambda>(r, n). below q r \<and> refused r) f"

definition rmtree :: "(string \<Rightarrow> bool) \<Rightarrow> (string \<times> node) list \<Rightarrow> string \<Rightarrow> (string \<times> node) list" where
  "rmtree refused f p =
     (if map_of f p = Some Dir then filter (\<lambda>(q, n). \<not> below p q \<or> stays refused f q) f else f)"

text \<open>
  \<^verbatim>\<open>Path(p).mkdir(exist_ok=True)\<close>, and with \<^verbatim>\<open>parents=True\<close> the same for every
  missing ancestor first.
\<close>

definition mkdir :: "(string \<times> node) list \<Rightarrow> string \<Rightarrow> error + (string \<times> node) list" where
  "mkdir f p =
     (case map_of f p of
        Some Dir \<Rightarrow> Inr f
      | Some (File c) \<Rightarrow> Inl (FileExistsError p)
      | None \<Rightarrow>
          if dirname p = [] \<or> map_of f (dirname p) = Some Dir then Inr (f @ [(p, Dir)])
          else Inl (FileNotFoundError p))"

definition ancestors :: "string \<Rightarrow> string list" where
  "ancestors p = map (\<lambda>i. take i p) (filter (\<lambda>i. 0 < i \<and> p ! i = CHR ''/'') [0..<length p])"

fun mkdirs :: "(string \<times> node) list \<Rightarrow> string list \<Rightarrow> error + (string \<times> node) list" where
  "mkdirs f [] = Inr f"
| "mkdirs f (d # ds) = (case mkdir f d of Inl e \<Rightarrow> Inl e | Inr f' \<Rightarrow> mkdirs f' ds)"

definition mkdir_parents :: "(string \<times> node) list \<Rightarrow> string \<Rightarrow> error + (string \<times> node) list" where
  "mkdir_parents f p = mkdirs f (ancestors p @ [p])"

text \<open>\<^verbatim>\<open>open(p).read()\<close> and \<^verbatim>\<open>open(p, "w").write(c)\<close>.\<close>

definition read_file :: "(string \<times> node) list \<Rightarrow> string \<Rightarrow> error + string" where
  "read_file f p =
     (case map_of f p of
        Some (File c) \<Rightarrow> Inr c
      | Some Dir \<Rightarrow> Inl (IsADirectoryError p)
      | None \<Rightarrow> Inl (FileNotFoundError p))"

definition write_file :: "(string \<times> node) list \<Rightarrow> string \<Rightarrow> string \<Rightarrow> error + (string \<times> node) list" where
  "write_file f p c =
     (if map_of f p = Some Dir then Inl (IsADirectoryError p)
      else if dirname p \<noteq> [] \<and> map_of f (dirname p) \<noteq> Some Dir then Inl (FileNotFoundError p)
      else Inr (AList.update p (File c) f))"

text \<open>
  \<^verbatim>\<open>glob.glob(os.path.join(d, "*" + suffix))\<close>: the entries of directory \<open>d\<close> whose name
  ends with \<open>suffix\<close> and does not start with a dot, in the order the system lists them.
\<close>

definition glob_matches :: "(string \<times> node) list \<Rightarrow> string \<Rightarrow> string \<Rightarrow> string list" where
  "glob_matches f d suffix =
     filter (\<lambda>p. dirname p = d \<and> endswith (basename p) suffix \<and> \<not> startswith (basename p) ''.'')
       (map fst f)"

definition glob :: "world \<Rightarrow> string \<Rightarrow> string \<Rightarrow> string list" where
  "glob w d suffix = listing_order w (glob_matches (fs w) d suffix)"

text \<open>
  \<^verbatim>\<open>sorted(xs, key=k)\<close>: the keys are computed first, one for each element in order (a
  key that raises ends the call), and the sort is stable.
\<close>

fun map_errors :: "('a \<Rightarrow> error + 'b) \<Rightarrow> 'a list \<Rightarrow> error + 'b list" where
  "map_errors f [] = Inr []"
| "map_errors f (x # xs) =
     (case f x of
        Inl e \<Rightarrow> Inl e
      | Inr y \<Rightarrow> (case map_errors f xs of Inl e \<Rightarrow> Inl e | Inr ys \<Rightarrow> Inr (y # ys)))"

definition py_sorted :: "('a \<Rightarrow> error + 'k::linorder) \<Rightarrow> 'a list \<Rightarrow> error + 'a list" where
  "py_sorted k xs =
     (case map_errors k xs of
        Inl e \<Rightarrow> Inl e
      | Inr ks \<Rightarrow> Inr (map snd (sort_key fst (zip ks xs))))"

section \<open>Task discovery\<close>

definition input_dir :: string where
  "input_dir = ''inputfiles''"

definition base_dir :: string where
  "base_dir = ''processing''"

record task =
  base_name :: string
  version :: string
  output_file :: string
  playlist :: string
  key :: string
  downloaded_dir :: string
  decrypted_dir :: string

text \<open>
  The loop of \<^verbatim>\<open>find_tasks\<close> over the manifests that \<^verbatim>\<open>glob\<close> returned: a name that does
  not match the pattern is reported and skipped, a missing key file raises, and every
  other manifest appends one task.
\<close>

fun find_tasks_loop :: "world \<Rightarrow> string list \<Rightarrow> task list \<Rightarrow> world \<times> (error + task list)" where
  "find_tasks_loop w [] tasks = (w, Inr tasks)"
| "find_tasks_loop w (m3u8_path # rest) tasks =
     (let filename = basename m3u8_path in
      case match_filename filename of
        None \<Rightarrow>
          find_tasks_loop (print w (''Skipping invalid filename format: '' @ filename)) rest tasks
      | Some (b, v) \<Rightarrow>
          (let key_filename = b @ v @ ''.bin'';
               key_path = path_join input_dir key_filename
           in if \<not> path_exists (fs w) key_path
              then (w, Inl (FileNotFoundError (''Missing key file: '' @ key_filename)))
              else find_tasks_loop w rest
                     (tasks @ [\<lparr>base_name = b,
                                version = v,
                                output_file = b @ '' '' @ v @ ''.mp4'',
                                playlist = m3u8_path,
                                key = key_path,
                                downloaded_dir = path_join base_dir (''downloaded_'' @ v),
                                decrypted_dir = path_join base_dir (''decrypted_'' @ v)\<rparr>])))"

text \<open>The sort key \<^verbatim>\<open>[int(n) for n in x["version"].split('.')]\<close>; Python compares lists
  of integers lexicographically, as the order on \<^typ>\<open>int list\<close> does.\<close>

definition version_sort_key :: "task \<Rightarrow> error + int list" where
  "version_sort_key x = map_errors py_int (py_split ''.'' (version x))"

definition find_tasks :: "world \<Rightarrow> world \<times> (error + task list)" where
  "find_tasks w =
     (case find_tasks_loop w (glob w input_dir ''.m3u8'') [] of
        (w', Inl e) \<Rightarrow> (w', Inl e)
      | (w', Inr tasks) \<Rightarrow> (w', py_sorted version_sort_key tasks))"

section \<open>The playlist parser\<close>

text \<open>
  The inner loop of \<^verbatim>\<open>parse_m3u8\<close> over the attributes of one key line: an attribute
  that starts with \<^verbatim>\<open>IV=\<close> sets \<open>iv\<close> to its value without the double quotes around
  it and without a leading \<^verbatim>\<open>0x\<close> or \<^verbatim>\<open>0X\<close>; a later one overwrites an earlier one.
\<close>

definition clean_iv :: "string \<Rightarrow> string" where
  "clean_iv v =
     (let iv = strip_chars [dquote] v
      in if startswith (py_lower iv) ''0x'' then drop 2 iv else iv)"

fun parse_attributes :: "string option \<Rightarrow> string list \<Rightarrow> error + string option" where
  "parse_attributes iv [] = Inr iv"
| "parse_attributes iv (attr # attributes) =
     (if startswith attr ''IV=''
      then (case py_index (py_split1 ''='' attr) 1 of
              Inl e \<Rightarrow> Inl e
            | Inr v \<Rightarrow> parse_attributes (Some (clean_iv v)) attributes)
      else parse_attributes iv attributes)"

text \<open>
  The outer loop over the lines of the file. A line is stripped first; a line that
  starts with \<^verbatim>\<open>#EXT-X-KEY\<close> is a key line (\<^verbatim>\<open>line.split(":", 1)[1]\<close> raises when it has
  no colon), and only a line that is not a key line is tested for \<^verbatim>\<open>.ts?\<close>.
\<close>

fun parse_lines :: "string option \<Rightarrow> string list \<Rightarrow> string list \<Rightarrow> error + (string option \<times> string list)" where
  "parse_lines iv segments [] = Inr (iv, segments)"
| "parse_lines iv segments (raw # rest) =
     (let line = py_strip raw in
      if startswith line ''#EXT-X-KEY''
      then (case py_index (py_split1 '':'' line) 1 of
              Inl e \<Rightarrow> Inl e
            | Inr a \<Rightarrow>
                (case parse_attributes iv (py_split '','' a) of
                   Inl e \<Rightarrow> Inl e
                 | Inr iv' \<Rightarrow> parse_lines iv' segments rest))
      else if contains ''.ts?'' line then parse_lines iv (segments @ [line]) rest
      else parse_lines iv segments rest)"

definition iv_not_found :: "string \<Rightarrow> error" where
  "iv_not_found playlist_path = ValueError (''IV not found in '' @ playlist_path)"

definition parse_m3u8 :: "world \<Rightarrow> string \<Rightarrow> error + (string \<times> string list)" where
  "parse_m3u8 w playlist_path =
     (case read_file (fs w) playlist_path of
        Inl e \<Rightarrow> Inl e
      | Inr content \<Rightarrow>
          (case parse_lines None [] (readlines content) of
             Inl e \<Rightarrow> Inl e
           | Inr (iv, segments) \<Rightarrow>
               (case iv of
                  None \<Rightarrow> Inl (iv_not_found playlist_path)
                | Some v \<Rightarrow> if v = [] then Inl (iv_not_found playlist_path) else Inr (v, segments))))"

section \<open>Processing one task\<close>

text \<open>
  \<^verbatim>\<open>download_segment(task, i, url)\<close>: the file of segment \<open>i\<close> is \<^verbatim>\<open>segment{i}.ts\<close> in the
  download directory of the task; a failed fetch writes nothing.
\<close>

definition segment_file :: "string \<Rightarrow> nat \<Rightarrow> string" where
  "segment_file d i = path_join d (''segment'' @ py_str i @ ''.ts'')"

definition download_segment :: "world \<Rightarrow> task \<Rightarrow> nat \<Rightarrow> string \<Rightarrow> world \<times> (error + unit)" where
  "download_segment w t i url =
     (let ts_file = segment_file (downloaded_dir t) i;
          w1 = record_event w (Fetch i url)
      in case fetch w url of
           Inl e \<Rightarrow> (w1, Inl e)
         | Inr content \<Rightarrow>
             (case write_file (fs w1) ts_file content of
                Inl e \<Rightarrow> (w1, Inl e)
              | Inr f \<Rightarrow> (w1\<lparr>fs := f\<rparr>, Inr ())))"

text \<open>
  The thread pool. \<^verbatim>\<open>executor.submit\<close> takes one job for every pair of
  \<^verbatim>\<open>enumerate(segments)\<close> before any result is read; the loop over
  \<^verbatim>\<open>as_completed(futures)\<close> then sees each job when it is done and prints the exception
  of a job that raised. The jobs are taken here in the order in which they complete,
  each one whole.
\<close>

definition enumerate :: "'a list \<Rightarrow> (nat \<times> 'a) list" where
  "enumerate xs = zip [0..<length xs] xs"

fun run_jobs :: "world \<Rightarrow> task \<Rightarrow> (nat \<times> string) list \<Rightarrow> world" where
  "run_jobs w t [] = w"
| "run_jobs w t ((i, url) # jobs) =
     (case download_segment w t i url of
        (w', Inl e) \<Rightarrow> run_jobs (print w' (''Download error : '' @ str_of_error e)) t jobs
      | (w', Inr u) \<Rightarrow> run_jobs w' t jobs)"

definition download_segments :: "world \<Rightarrow> task \<Rightarrow> string list \<Rightarrow> world" where
  "download_segments w t segments =
     run_jobs (print w (''Downloading '' @ py_str (length segments) @ '' segments...'')) t
       (completion_order w (enumerate segments))"

text \<open>
  One run of \<^verbatim>\<open>openssl aes-128-cbc -d -in input_ts -out output_ts -nosalt -iv iv -K key_hex\<close>
  with \<^verbatim>\<open>check=True\<close>: the tool fails when it cannot read its input, when the
  decryption fails or when it cannot write its output, and a failure raises.
\<close>

definition openssl :: "world \<Rightarrow> string \<Rightarrow> string \<Rightarrow> string \<Rightarrow> string \<Rightarrow> world \<times> (error + unit)" where
  "openssl w input_ts output_ts iv key_hex =
     (let w1 = record_event w (Openssl input_ts output_ts iv key_hex) in
      case read_file (fs w1) input_ts of
        Inl e \<Rightarrow> (w1, Inl (CalledProcessError (''openssl: '' @ str_of_error e)))
      | Inr c \<Rightarrow>
          (case decrypt w c iv key_hex of
             Inl e \<Rightarrow> (w1, Inl (CalledProcessError (''openssl: '' @ str_of_error e)))
           | Inr plain \<Rightarrow>
               (case write_file (fs w1) output_ts plain of
                  Inl e \<Rightarrow> (w1, Inl (CalledProcessError (''openssl: '' @ str_of_error e)))
                | Inr f \<Rightarrow> (w1\<lparr>fs := f\<rparr>, Inr ()))))"

text \<open>The loop \<^verbatim>\<open>for i in range(len(segments))\<close>; the first failure ends it.\<close>

fun decrypt_loop :: "world \<Rightarrow> task \<Rightarrow> string \<Rightarrow> string \<Rightarrow> nat list \<Rightarrow> world \<times> (error + unit)" where
  "decrypt_loop w t iv key_hex [] = (w, Inr ())"
| "decrypt_loop w t iv key_hex (i # rest) =
     (case openssl w (segment_file (downloaded_dir t) i) (segment_file (decrypted_dir t) i) iv key_hex of
        (w', Inl e) \<Rightarrow> (w', Inl e)
      | (w', Inr u) \<Rightarrow> decrypt_loop w' t iv key_hex rest)"

definition decrypt_segments :: "world \<Rightarrow> task \<Rightarrow> string \<Rightarrow> string \<Rightarrow> nat \<Rightarrow> world \<times> (error + unit)" where
  "decrypt_segments w t iv key_hex n =
     decrypt_loop (print w ''Decrypting segments...'') t iv key_hex [0..<n]"

text \<open>
  The file list. The key of a path is
  \<^verbatim>\<open>int(os.path.basename(x).split("segment")[1].split(".")[0])\<close>, and the list names the
  sorted files, one line \<^verbatim>\<open>file 'name'\<close> for each.
\<close>

definition segment_sort_key :: "string \<Rightarrow> error + int" where
  "segment_sort_key x =
     (case py_index (py_split ''segment'' (basename x)) 1 of
        Inl e \<Rightarrow> Inl e
      | Inr r \<Rightarrow>
          (case py_index (py_split ''.'' r) 0 of
             Inl e \<Rightarrow> Inl e
           | Inr d \<Rightarrow> py_int d))"

definition sorted_segments :: "world \<Rightarrow> string \<Rightarrow> error + string list" where
  "sorted_segments w d = py_sorted segment_sort_key (glob w d ''.ts'')"

definition file_list_text :: "string list \<Rightarrow> string" where
  "file_list_text segs =
     concat (map (\<lambda>seg. ''file '' @ [squote] @ basename seg @ [squote] @ [newline]) segs)"

text \<open>
  \<^verbatim>\<open>ffmpeg -f concat -safe 0 -i task_file_list -c copy output_file\<close> with
  \<^verbatim>\<open>check=True\<close>: the tool reads the file list, and what it makes of it is written to
  the output file.
\<close>

definition ffmpeg :: "world \<Rightarrow> string \<Rightarrow> string \<Rightarrow> world \<times> (error + unit)" where
  "ffmpeg w task_file_list out_file =
     (let w1 = record_event w (Ffmpeg task_file_list out_file) in
      case read_file (fs w1) task_file_list of
        Inl e \<Rightarrow> (w1, Inl (CalledProcessError (''ffmpeg: '' @ str_of_error e)))
      | Inr l \<Rightarrow>
          (case concatenate w l (fs w1) of
             Inl e \<Rightarrow> (w1, Inl (CalledProcessError (''ffmpeg: '' @ str_of_error e)))
           | Inr media \<Rightarrow>
               (case write_file (fs w1) out_file media of
                  Inl e \<Rightarrow> (w1, Inl (CalledProcessError (''ffmpeg: '' @ str_of_error e)))
                | Inr f \<Rightarrow> (w1\<lparr>fs := f\<rparr>, Inr ()))))"

definition concat_segments :: "world \<Rightarrow> task \<Rightarrow> world \<times> (error + string)" where
  "concat_segments w t =
     (let task_file_list = path_join (decrypted_dir t) ''filelist.txt'' in
      case sorted_segments w (decrypted_dir t) of
        Inl e \<Rightarrow> (w, Inl e)
      | Inr segs \<Rightarrow>
          (case write_file (fs w) task_file_list (file_list_text segs) of
             Inl e \<Rightarrow> (w, Inl e)
           | Inr f \<Rightarrow>
               (case ffmpeg (print (w\<lparr>fs := f\<rparr>) (''Creating '' @ output_file t)) task_file_list (output_file t) of
                  (w', Inl e) \<Rightarrow> (w', Inl e)
                | (w', Inr u) \<Rightarrow> (w', Inr (output_file t)))))"

text \<open>
  The first part of \<^verbatim>\<open>process_task\<close>: it creates the two directories of the task, reads
  the key and parses the playlist, and gives the key in hexadecimal, the IV and the
  segment URLs. An exception leaves the function at once; what was done before it
  stays done.
\<close>

definition prepare_task :: "world \<Rightarrow> task \<Rightarrow> world \<times> (error + string \<times> string \<times> string list)" where
  "prepare_task w t =
     (case mkdir_parents (fs w) (downloaded_dir t) of
        Inl e \<Rightarrow> (w, Inl e)
      | Inr f1 \<Rightarrow>
          (case mkdir_parents f1 (decrypted_dir t) of
             Inl e \<Rightarrow> (w\<lparr>fs := f1\<rparr>, Inl e)
           | Inr f2 \<Rightarrow>
               (let w2 = w\<lparr>fs := f2\<rparr> in
                case read_file (fs w2) (key t) of
                  Inl e \<Rightarrow> (w2, Inl e)
                | Inr key_bytes \<Rightarrow>
                    (case parse_m3u8 w2 (playlist t) of
                       Inl e \<Rightarrow> (w2, Inl e)
                     | Inr (iv, segments) \<Rightarrow> (w2, Inr (hex key_bytes, iv, segments))))))"

text \<open>
  \<^verbatim>\<open>process_task\<close>: the first line it prints, the preparation, and then the three
  stages: download, decrypt, concatenate.
\<close>

definition processing_message :: "task \<Rightarrow> string" where
  "processing_message t = [newline] @ ''Processing '' @ base_name t @ '' '' @ version t"

definition process_task :: "world \<Rightarrow> task \<Rightarrow> world \<times> (error + string)" where
  "process_task w0 t =
     (case prepare_task (print w0 (processing_message t)) t of
        (w2, Inl e) \<Rightarrow> (w2, Inl e)
      | (w2, Inr (key_hex, iv, segments)) \<Rightarrow>
          (case decrypt_segments (download_segments w2 t segments) t iv key_hex (length segments) of
             (w3, Inl e) \<Rightarrow> (w3, Inl e)
           | (w3, Inr u) \<Rightarrow> concat_segments w3 t))"

section \<open>The run\<close>

text \<open>The loop of \<^verbatim>\<open>main\<close> over the tasks, with its \<^verbatim>\<open>try\<close> and \<^verbatim>\<open>except Exception\<close>.\<close>

definition failed_message :: "task \<Rightarrow> error \<Rightarrow> string" where
  "failed_message t e =
     ''Failed to process '' @ base_name t @ '' '' @ version t @ '': '' @ str_of_error e"

fun process_all :: "world \<Rightarrow> task list \<Rightarrow> string list \<Rightarrow> world \<times> string list" where
  "process_all w [] output_files = (w, output_files)"
| "process_all w (t # tasks) output_files =
     (case process_task w t of
        (w', Inr out_file) \<Rightarrow> process_all w' tasks (output_files @ [out_file])
      | (w', Inl e) \<Rightarrow> process_all (print w' (failed_message t e)) tasks output_files)"

text \<open>The report at the end: one line for each output file that exists, with its size.\<close>

fun report_files :: "world \<Rightarrow> string list \<Rightarrow> world" where
  "report_files w [] = w"
| "report_files w (file # files) =
     (case map_of (fs w) file of
        Some (File c) \<Rightarrow> report_files (record_event w (Report file (length c))) files
      | Some Dir \<Rightarrow> report_files (record_event w (Report file 0)) files
      | None \<Rightarrow> report_files w files)"

text \<open>The body of the \<^verbatim>\<open>try\<close> in \<^verbatim>\<open>main\<close>.\<close>

definition main_body :: "world \<Rightarrow> world \<times> (error + unit)" where
  "main_body w =
     (if \<not> path_exists (fs w) input_dir
      then (w, Inl (FileNotFoundError (''Input directory '' @ [squote] @ input_dir @ [squote] @ '' not found'')))
      else case mkdir (rmtree (removal_refused w) (fs w) base_dir) base_dir of
             Inl e \<Rightarrow> (w\<lparr>fs := rmtree (removal_refused w) (fs w) base_dir\<rparr>, Inl e)
           | Inr f \<Rightarrow>
               (case find_tasks (w\<lparr>fs := f\<rparr>) of
                  (w1, Inl e) \<Rightarrow> (w1, Inl e)
                | (w1, Inr tasks) \<Rightarrow>
                    if tasks = []
                    then (w1, Inl (ValueError (''No valid playlist/key pairs found in '' @ input_dir)))
                    else (case process_all w1 tasks [] of
                            (w2, output_files) \<Rightarrow>
                              (report_files (print w2 ([newline] @ ''Successfully created files:'')) output_files,
                               Inr ()))))"

text \<open>The \<^verbatim>\<open>finally\<close> of \<^verbatim>\<open>main\<close>, which runs however the body ended.\<close>

definition final_cleanup :: "world \<Rightarrow> world" where
  "final_cleanup w =
     (let w1 = print w ([newline] @ ''Performing final cleanup...'');
          w2 = (if path_exists (fs w1) base_dir then w1\<lparr>fs := rmtree (removal_refused w1) (fs w1) base_dir\<rparr> else w1)
      in print w2 ''Cleanup completed'')"

definition main :: "world \<Rightarrow> world \<times> (error + unit)" where
  "main w = (case main_body w of (w', r) \<Rightarrow> (final_cleanup w', r))"

section \<open>The terms of the specification\<close>

text \<open>
  The definitions of this section are not parts of the script: they say, in the terms
  of the specification, what the theorems below compare the script with.
\<close>

subsection \<open>What the parser reads\<close>

text \<open>
  The words of the specification about a manifest, over its stripped lines: a key line
  starts with the key tag; its attributes are the comma-separated pieces after its first
  colon; the IV values of a file are the values of the attributes that start with
  \<^verbatim>\<open>IV=\<close> on its key lines, in file order; a segment line is a line with the marker
  \<^verbatim>\<open>.ts?\<close> that is not a key line, and a marker line is any line with the marker.
\<close>

definition key_line :: "string \<Rightarrow> bool" where
  "key_line l = startswith l ''#EXT-X-KEY''"

definition has_colon :: "string \<Rightarrow> bool" where
  "has_colon l = (CHR '':'' \<in> set l)"

definition attributes_of :: "string \<Rightarrow> string list" where
  "attributes_of l = (case partition_str '':'' l of None \<Rightarrow> [] | Some (a, b) \<Rightarrow> py_split '','' b)"

definition iv_values_of :: "string \<Rightarrow> string list" where
  "iv_values_of l = map (drop 3) (filter (\<lambda>a. startswith a ''IV='') (attributes_of l))"

definition iv_values :: "string list \<Rightarrow> string list" where
  "iv_values raw = concat (map iv_values_of (filter key_line (map py_strip raw)))"

definition keys_have_colon :: "string list \<Rightarrow> bool" where
  "keys_have_colon raw = list_all has_colon (filter key_line (map py_strip raw))"

definition segment_lines :: "string list \<Rightarrow> string list" where
  "segment_lines raw = filter (\<lambda>l. \<not> key_line l \<and> contains ''.ts?'' l) (map py_strip raw)"

definition marker_lines :: "string list \<Rightarrow> string list" where
  "marker_lines raw = filter (contains ''.ts?'') (map py_strip raw)"

definition last_iv :: "string option \<Rightarrow> string list \<Rightarrow> string option" where
  "last_iv iv vs = (if vs = [] then iv else Some (clean_iv (last vs)))"

subsection \<open>What discovery finds\<close>

text \<open>
  The words of the specification about discovery, over the manifests that \<^verbatim>\<open>glob\<close>
  returns: the name of the key file of a manifest whose name matches, whether that key
  file is missing, the task of a matched pair, the warning for a name that does not
  match, and the numbers of a version label (its dot-separated components as integers).
\<close>

definition key_filename_of :: "string \<Rightarrow> string" where
  "key_filename_of p =
     (case match_filename (basename p) of None \<Rightarrow> [] | Some (b, v) \<Rightarrow> b @ v @ ''.bin'')"

definition key_missing :: "(string \<times> node) list \<Rightarrow> string \<Rightarrow> bool" where
  "key_missing f p =
     (match_filename (basename p) \<noteq> None
      \<and> \<not> path_exists f (path_join input_dir (key_filename_of p)))"

definition task_for :: "string \<Rightarrow> string \<Rightarrow> string \<Rightarrow> task" where
  "task_for p b v =
     \<lparr>base_name = b,
      version = v,
      output_file = b @ '' '' @ v @ ''.mp4'',
      playlist = p,
      key = path_join input_dir (b @ v @ ''.bin''),
      downloaded_dir = path_join base_dir (''downloaded_'' @ v),
      decrypted_dir = path_join base_dir (''decrypted_'' @ v)\<rparr>"

definition tasks_of :: "string list \<Rightarrow> task list" where
  "tasks_of ps =
     concat (map (\<lambda>p. case match_filename (basename p) of
                         None \<Rightarrow> []
                       | Some (b, v) \<Rightarrow> [task_for p b v]) ps)"

definition skip_warnings :: "string list \<Rightarrow> event list" where
  "skip_warnings ps =
     concat (map (\<lambda>p. case match_filename (basename p) of
                         None \<Rightarrow> [Print (''Skipping invalid filename format: '' @ basename p)]
                       | Some m \<Rightarrow> []) ps)"

definition version_numbers :: "string \<Rightarrow> int list" where
  "version_numbers v = map (\<lambda>n. int (digits_val n)) (py_split ''.'' v)"

subsection \<open>What the decryptor and the concatenator do\<close>

text \<open>
  The call of \<^verbatim>\<open>openssl\<close> for the segment of index \<open>i\<close>, and the number in the name of
  a segment file (0 where the name has none).
\<close>

definition openssl_call :: "task \<Rightarrow> string \<Rightarrow> string \<Rightarrow> nat \<Rightarrow> event" where
  "openssl_call t iv key_hex i =
     Openssl (segment_file (downloaded_dir t) i) (segment_file (decrypted_dir t) i) iv key_hex"

definition segment_index :: "string \<Rightarrow> int" where
  "segment_index x = (case segment_sort_key x of Inr k \<Rightarrow> k | Inl e \<Rightarrow> 0)"

subsection \<open>What the download stage does\<close>

text \<open>
  The fetches of a trace, in order, each with the index it was submitted with; whether
  a file can be written (the path is not a directory and its directory exists); and
  one step of the pool: the job, and the line that is printed when it raised.
\<close>

fun fetch_of :: "event \<Rightarrow> (nat \<times> string) list" where
  "fetch_of (Fetch i url) = [(i, url)]"
| "fetch_of e = []"

definition fetches :: "event list \<Rightarrow> (nat \<times> string) list" where
  "fetches es = concat (map fetch_of es)"

definition write_ok :: "(string \<times> node) list \<Rightarrow> string \<Rightarrow> bool" where
  "write_ok f p = (map_of f p \<noteq> Some Dir \<and> (dirname p = [] \<or> map_of f (dirname p) = Some Dir))"

definition job_step :: "world \<Rightarrow> task \<Rightarrow> nat \<Rightarrow> string \<Rightarrow> world" where
  "job_step w t i url =
     (case download_segment w t i url of
        (w', Inl e) \<Rightarrow> print w' (''Download error : '' @ str_of_error e)
      | (w', Inr u) \<Rightarrow> w')"

subsection \<open>What the loop over the tasks does\<close>

text \<open>
  The lines of a trace that speak of a task: the line \<^verbatim>\<open>Processing ...\<close> that
  \<^verbatim>\<open>process_task\<close> prints first, and the line \<^verbatim>\<open>Failed to process ...\<close> that the loop
  prints for a task that raised. The outcomes of a list of tasks are the results of
  \<open>process_task\<close> for each task, in order, each in the world that the loop has made of
  the tasks before it; their outputs are the output files of the tasks that returned,
  and their lines are, for each task, its first line and, if it raised, the line of its
  failure.
\<close>

definition task_line :: "event \<Rightarrow> bool" where
  "task_line e =
     (case e of
        Print s \<Rightarrow> startswith s ([newline] @ ''Processing '') \<or> startswith s ''Failed to process ''
      | Report f n \<Rightarrow> False
      | Fetch i u \<Rightarrow> False
      | Openssl a b iv k \<Rightarrow> False
      | Ffmpeg l out \<Rightarrow> False)"

definition task_lines :: "event list \<Rightarrow> event list" where
  "task_lines es = filter task_line es"

fun outcomes :: "world \<Rightarrow> task list \<Rightarrow> (task \<times> (error + string)) list" where
  "outcomes w [] = []"
| "outcomes w (t # tasks) = (t, snd (process_task w t)) # outcomes (fst (process_all w [t] [])) tasks"

definition outputs_of :: "(task \<times> (error + string)) list \<Rightarrow> string list" where
  "outputs_of rs = concat (map (\<lambda>(t, r). case r of Inl e \<Rightarrow> [] | Inr out_file \<Rightarrow> [out_file]) rs)"

definition lines_of :: "(task \<times> (error + string)) list \<Rightarrow> event list" where
  "lines_of rs =
     concat (map (\<lambda>(t, r). Print (processing_message t)
                              # (case r of Inl e \<Rightarrow> [Print (failed_message t e)] | Inr out_file \<Rightarrow> [])) rs)"

subsection \<open>What the list for the muxer holds\<close>

text \<open>
  The path of the file list of a task, and the line of the list that names the segment
  file of index \<open>i\<close>.
\<close>

definition task_file_list :: "task \<Rightarrow> string" where
  "task_file_list t = path_join (decrypted_dir t) ''filelist.txt''"

definition list_line :: "nat \<Rightarrow> string" where
  "list_line i = ''file '' @ [squote] @ ''segment'' @ py_str i @ ''.ts'' @ [squote] @ [newline]"

section \<open>Example runs\<close>

text \<open>
  A manifest with one key line and three segment lines, and an input directory with two
  manifests and their keys (the manifest of version 1.9 declares no IV), one file whose
  name does not match the pattern, and a hidden file.
\<close>

definition example_manifest :: string where
  "example_manifest =
     ''#EXTM3U'' @ [newline] @
     ''#EXT-X-KEY:METHOD=AES-128,URI='' @ [dquote] @ ''k.key'' @ [dquote] @ '',IV=0X0a0b'' @ [newline] @
     ''#EXTINF:10,'' @ [newline] @
     ''http://h/a.ts?t=1'' @ [newline] @
     ''http://h/b.ts?t=1'' @ [CHR 0x0D, newline] @
     ''http://h/c.ts?t=1''"

definition example_world :: world where
  "example_world =
     \<lparr>fs = [(''inputfiles'', Dir),
            (''inputfiles/v1.10.m3u8'', File example_manifest),
            (''inputfiles/v1.10.bin'', File ''k''),
            (''inputfiles/v1.9.m3u8'', File ''#EXTM3U''),
            (''inputfiles/v1.9.bin'', File ''k''),
            (''inputfiles/notes.m3u8'', File ''x''),
            (''inputfiles/.hid1.1.m3u8'', File ''x'')],
      trace = [],
      fetch = (\<lambda>u. Inr (''enc:'' @ u)),
      decrypt = (\<lambda>c i k. Inr (''dec:'' @ c)),
      concatenate = (\<lambda>l f. Inr l),
      listing_order = rev,
      completion_order = rev,
      removal_refused = (\<lambda>q. False)\<rparr>"

text \<open>
  A world with one file, and three manifests: one whose key line holds the marker in
  the URI of its key, one with two key lines of which the first has an empty IV, and
  one whose only IV is \<^verbatim>\<open>"0x"\<close>.
\<close>

definition world_with_file :: "string \<Rightarrow> string \<Rightarrow> world" where
  "world_with_file p content = example_world\<lparr>fs := [(p, File content)]\<rparr>"

definition key_uri_manifest :: string where
  "key_uri_manifest =
     ''#EXT-X-KEY:METHOD=AES-128,URI='' @ [dquote] @ ''https://h/key.ts?id=7'' @ [dquote] @ '',IV=0x01'' @ [newline] @
     ''https://h/a.ts?id=7'' @ [newline]"

definition two_key_manifest :: string where
  "two_key_manifest =
     ''#EXT-X-KEY:METHOD=AES-128,IV='' @ [dquote, dquote] @ [newline] @
     ''https://h/a.ts?id=7'' @ [newline] @
     ''#EXT-X-KEY:METHOD=AES-128,IV=0x01'' @ [newline] @
     ''https://h/b.ts?id=7'' @ [newline]"

definition empty_iv_manifest :: string where
  "empty_iv_manifest =
     ''#EXT-X-KEY:METHOD=AES-128,IV='' @ [dquote] @ ''0x'' @ [dquote] @ [newline] @
     ''https://h/a.ts?id=7'' @ [newline]"

text \<open>
  Worlds with a given file system: one with four versions of one base name, listed in
  no particular order, and one in which two base names have the same version.
\<close>

definition files_world :: "(string \<times> node) list \<Rightarrow> world" where
  "files_world f = example_world\<lparr>fs := f\<rparr>"

definition four_versions_world :: world where
  "four_versions_world =
     files_world [(''inputfiles'', Dir),
                  (''inputfiles/v10.0.m3u8'', File example_manifest), (''inputfiles/v10.0.bin'', File ''k''),
                  (''inputfiles/v1.10.m3u8'', File example_manifest), (''inputfiles/v1.10.bin'', File ''k''),
                  (''inputfiles/v2.5.m3u8'', File example_manifest), (''inputfiles/v2.5.bin'', File ''k''),
                  (''inputfiles/v1.9.m3u8'', File example_manifest), (''inputfiles/v1.9.bin'', File ''k'')]"

text \<open>
  Two base names with the same version: the manifest of \<^verbatim>\<open>a\<close> has one segment, that of
  \<^verbatim>\<open>b\<close> has the three segments of the example manifest, and \<^verbatim>\<open>b\<close> is listed first.
\<close>

definition short_manifest :: string where
  "short_manifest =
     ''#EXT-X-KEY:METHOD=AES-128,IV=0x01'' @ [newline] @
     ''http://h/z.ts?t=1'' @ [newline]"

definition shared_version_world :: world where
  "shared_version_world =
     files_world [(''inputfiles'', Dir),
                  (''inputfiles/a1.0.m3u8'', File short_manifest), (''inputfiles/a1.0.bin'', File ''k''),
                  (''inputfiles/b1.0.m3u8'', File example_manifest), (''inputfiles/b1.0.bin'', File ''k'')]"

text \<open>The example input directory without the key of version 1.9.\<close>

definition missing_key_world :: world where
  "missing_key_world =
     files_world [(''inputfiles'', Dir),
                  (''inputfiles/v1.10.m3u8'', File example_manifest),
                  (''inputfiles/v1.10.bin'', File ''k''),
                  (''inputfiles/v1.9.m3u8'', File example_manifest),
                  (''inputfiles/notes.m3u8'', File ''x'')]"

text \<open>
  A workspace with three downloaded segments, whose decrypt directory already holds
  the segments 3, 1 and 2, entered in this order.
\<close>

definition listing_world :: world where
  "listing_world =
     files_world [(''processing'', Dir),
                  (''processing/downloaded_1.0'', Dir),
                  (''processing/decrypted_1.0'', Dir),
                  (''processing/downloaded_1.0/segment0.ts'', File ''a''),
                  (''processing/downloaded_1.0/segment1.ts'', File ''b''),
                  (''processing/downloaded_1.0/segment2.ts'', File ''c''),
                  (''processing/decrypted_1.0/segment3.ts'', File ''z''),
                  (''processing/decrypted_1.0/segment1.ts'', File ''x''),
                  (''processing/decrypted_1.0/segment2.ts'', File ''y'')]"

text \<open>
  A workspace in which the two directories of version 1.0 are empty, the three segment
  URLs of the example manifest, and a world in which the fetch of the second of them
  fails. The downloads complete in reverse order of submission.
\<close>

definition prepared_world :: world where
  "prepared_world =
     files_world [(''processing'', Dir),
                  (''processing/downloaded_1.0'', Dir),
                  (''processing/decrypted_1.0'', Dir)]"

definition example_segments :: "string list" where
  "example_segments = [''http://h/a.ts?t=1'', ''http://h/b.ts?t=1'', ''http://h/c.ts?t=1'']"

definition failing_fetch :: "string \<Rightarrow> error + string" where
  "failing_fetch u =
     (if u = ''http://h/b.ts?t=1'' then Inl (RequestException ''404 Client Error'')
      else Inr (''enc:'' @ u))"

definition failing_fetch_world :: world where
  "failing_fetch_world = prepared_world\<lparr>fetch := failing_fetch\<rparr>"

text \<open>An input directory with one manifest and its key, where the same fetch fails.\<close>

definition failing_run_world :: world where
  "failing_run_world =
     (files_world [(''inputfiles'', Dir),
                   (''inputfiles/v1.0.m3u8'', File example_manifest),
                   (''inputfiles/v1.0.bin'', File ''k'')])\<lparr>fetch := failing_fetch\<rparr>"

text \<open>
  The example input directory with a workspace left by an earlier run; the same where
  the system refuses to remove one file of the workspace; and the same where the path
  of the workspace is a regular file.
\<close>

definition stale_workspace_world :: world where
  "stale_workspace_world =
     files_world (fs example_world @ [(''processing'', Dir), (''processing/old.ts'', File ''x'')])"

definition locked_workspace_world :: world where
  "locked_workspace_world =
     stale_workspace_world\<lparr>removal_refused := (\<lambda>q. q = ''processing/old.ts'')\<rparr>"

definition file_workspace_world :: world where
  "file_workspace_world = files_world (fs example_world @ [(''processing'', File ''x'')])"

section \<open>Lemmas\<close>

subsection \<open>The file system\<close>

lemma below_refl: "below p p"
  by (simp add: below_def)

lemma map_of_filter_out:
  "\<not> P k \<Longrightarrow> map_of (filter (\<lambda>(q, n). P q) f) k = None"
  by (induction f) auto

lemma startswith_iff: "startswith a b \<longleftrightarrow> (\<exists>x. a = b @ x)"
proof
  assume "startswith a b"
  then have "a = b @ drop (length b) a"
    by (metis append_take_drop_id startswith_def)
  then show "\<exists>x. a = b @ x" ..
next
  assume "\<exists>x. a = b @ x"
  then show "startswith a b" by (auto simp: startswith_def)
qed

lemma below_trans: "below p q \<Longrightarrow> below q r \<Longrightarrow> below p r"
  by (auto simp: below_def startswith_iff)

lemma stays_refused: "stays u f q \<Longrightarrow> \<exists>r \<in> fst ` set f. below q r \<and> u r"
  by (force simp: stays_def list_ex_iff)

lemma rmtree_removed:
  assumes "map_of f p = Some Dir" and "below p q" and "\<not> stays u f q"
  shows "map_of (rmtree u f p) q = None"
proof -
  have "map_of (filter (\<lambda>(q, n). \<not> below p q \<or> stays u f q) f) q = None"
    by (rule map_of_filter_out) (simp add: assms)
  with assms(1) show ?thesis by (simp add: rmtree_def)
qed

lemma rmtree_not_dir:
  assumes "\<And>r. below p r \<Longrightarrow> \<not> u r"
  shows "map_of (rmtree u f p) p \<noteq> Some Dir"
proof (cases "map_of f p = Some Dir")
  case True
  have "\<not> stays u f p"
    using assms by (auto dest: stays_refused)
  from rmtree_removed [OF True below_refl this] show ?thesis by simp
next
  case False
  then show ?thesis by (simp add: rmtree_def)
qed

lemma fs_print: "fs (print w s) = fs w"
  by (simp add: print_def)

lemma final_cleanup_fs: "fs (final_cleanup w) = rmtree (removal_refused w) (fs w) base_dir"
  by (auto simp: final_cleanup_def Let_def print_def path_exists_def rmtree_def)

subsection \<open>The parser in closed form\<close>

lemma partition_str_char_None: "c \<notin> set s \<Longrightarrow> partition_str [c] s = None"
  by (induction s) (auto simp: startswith_def)

lemma partition_str_char_Some: "c \<in> set s \<Longrightarrow> \<exists>a b. partition_str [c] s = Some (a, b)"
  by (induction s) (auto simp: startswith_def)

lemma split1_colon_index:
  "py_index (py_split1 '':'' l) (Suc 0) =
     (case partition_str '':'' l of None \<Rightarrow> Inl (IndexError ''list index out of range'') | Some (a, b) \<Rightarrow> Inr b)"
  by (simp add: py_index_def py_split1_def split: option.split)

lemma iv_attr_value: "startswith attr ''IV='' \<Longrightarrow> py_index (py_split1 ''='' attr) (Suc 0) = Inr (drop 3 attr)"
proof -
  assume a: "startswith attr ''IV=''"
  then obtain r where "attr = ''IV='' @ r"
    by (metis append_take_drop_id startswith_def)
  then show ?thesis
    by (simp add: py_index_def py_split1_def startswith_def)
qed

lemma last_iv_append: "last_iv (last_iv iv vs) ws = last_iv iv (vs @ ws)"
  by (simp add: last_iv_def)

lemma parse_attributes_eq:
  "parse_attributes iv attrs =
     Inr (last_iv iv (map (drop 3) (filter (\<lambda>a. startswith a ''IV='') attrs)))"
proof (induction attrs arbitrary: iv)
  case Nil
  show ?case by (simp add: last_iv_def)
next
  case (Cons a attrs)
  show ?case
  proof (cases "startswith a ''IV=''")
    case True
    then show ?thesis
      using Cons.IH [of "Some (clean_iv (drop 3 a))"]
      by (simp add: iv_attr_value last_iv_def)
  next
    case False
    then show ?thesis using Cons.IH [of iv] by simp
  qed
qed

lemma parse_lines_eq:
  "parse_lines iv segs raw =
     (if keys_have_colon raw then Inr (last_iv iv (iv_values raw), segs @ segment_lines raw)
      else Inl (IndexError ''list index out of range''))"
proof (induction raw arbitrary: iv segs)
  case Nil
  show ?case
    by (simp add: keys_have_colon_def iv_values_def segment_lines_def last_iv_def)
next
  case (Cons r raw)
  let ?l = "py_strip r"
  show ?case
  proof (cases "key_line ?l")
    case key: True
    show ?thesis
    proof (cases "has_colon ?l")
      case True
      then obtain a b where p: "partition_str '':'' ?l = Some (a, b)"
        using partition_str_char_Some [of "CHR '':''" ?l] by (auto simp: has_colon_def)
      have iv: "iv_values (r # raw) = iv_values_of ?l @ iv_values raw"
        using key by (simp add: iv_values_def)
      have kc: "keys_have_colon (r # raw) = keys_have_colon raw"
        using key True by (simp add: keys_have_colon_def)
      have sl: "segment_lines (r # raw) = segment_lines raw"
        using key by (simp add: segment_lines_def)
      have "parse_lines iv segs (r # raw) =
              parse_lines (last_iv iv (iv_values_of ?l)) segs raw"
        using key p
        by (simp add: key_line_def [symmetric] split1_colon_index parse_attributes_eq
              iv_values_of_def attributes_of_def)
      then show ?thesis
        by (simp only: Cons.IH iv kc sl last_iv_append)
    next
      case False
      then have p: "partition_str '':'' ?l = None"
        using partition_str_char_None [of "CHR '':''" ?l] by (simp add: has_colon_def)
      have kc: "\<not> keys_have_colon (r # raw)"
        using key False by (simp add: keys_have_colon_def)
      have "parse_lines iv segs (r # raw) = Inl (IndexError ''list index out of range'')"
        using key p by (simp add: key_line_def [symmetric] split1_colon_index)
      with kc show ?thesis by simp
    qed
  next
    case False
    have iv: "iv_values (r # raw) = iv_values raw"
      using False by (simp add: iv_values_def)
    have kc: "keys_have_colon (r # raw) = keys_have_colon raw"
      using False by (simp add: keys_have_colon_def)
    show ?thesis
    proof (cases "contains ''.ts?'' ?l")
      case True
      have sl: "segment_lines (r # raw) = ?l # segment_lines raw"
        using False True by (simp add: segment_lines_def)
      have "parse_lines iv segs (r # raw) = parse_lines iv (segs @ [?l]) raw"
        using False True by (simp add: key_line_def [symmetric])
      then show ?thesis by (simp only: Cons.IH iv kc sl) simp
    next
      case True': False
      have sl: "segment_lines (r # raw) = segment_lines raw"
        using False True' by (simp add: segment_lines_def)
      have "parse_lines iv segs (r # raw) = parse_lines iv segs raw"
        using False True' by (simp add: key_line_def [symmetric])
      then show ?thesis by (simp only: Cons.IH iv kc sl)
    qed
  qed
qed

subsection \<open>The discovery loop in closed form\<close>

lemma find_tasks_loop_eq:
  "find_tasks_loop w ps acc =
     (let good = takeWhile (\<lambda>p. \<not> key_missing (fs w) p) ps;
          w' = w\<lparr>trace := trace w @ skip_warnings good\<rparr>
      in case find (key_missing (fs w)) ps of
           None \<Rightarrow> (w', Inr (acc @ tasks_of good))
         | Some p \<Rightarrow> (w', Inl (FileNotFoundError (''Missing key file: '' @ key_filename_of p))))"
proof (induction ps arbitrary: w acc)
  case Nil
  show ?case by (simp add: skip_warnings_def tasks_of_def)
next
  case (Cons p ps)
  show ?case
  proof (cases "match_filename (basename p)")
    case None
    then have nm: "\<not> key_missing (fs w) p"
      by (simp add: key_missing_def)
    have sw: "skip_warnings (p # takeWhile (\<lambda>p. \<not> key_missing (fs w) p) ps) =
        Print (''Skipping invalid filename format: '' @ basename p)
          # skip_warnings (takeWhile (\<lambda>p. \<not> key_missing (fs w) p) ps)"
      using None by (simp add: skip_warnings_def)
    have tk: "tasks_of (p # takeWhile (\<lambda>p. \<not> key_missing (fs w) p) ps) =
        tasks_of (takeWhile (\<lambda>p. \<not> key_missing (fs w) p) ps)"
      using None by (simp add: tasks_of_def)
    have step: "find_tasks_loop w (p # ps) acc =
        find_tasks_loop (print w (''Skipping invalid filename format: '' @ basename p)) ps acc"
      using None by simp
    show ?thesis
      unfolding step Cons.IH
      using nm by (simp add: sw tk Let_def print_def split: option.split)
  next
    case (Some m)
    obtain b v where m: "m = (b, v)" by (cases m)
    show ?thesis
    proof (cases "path_exists (fs w) (path_join input_dir (b @ v @ ''.bin''))")
      case True
      then have nm: "\<not> key_missing (fs w) p"
        using Some m by (simp add: key_missing_def key_filename_of_def)
      have sw: "skip_warnings (p # takeWhile (\<lambda>p. \<not> key_missing (fs w) p) ps) =
          skip_warnings (takeWhile (\<lambda>p. \<not> key_missing (fs w) p) ps)"
        using Some by (simp add: skip_warnings_def)
      have tk: "tasks_of (p # takeWhile (\<lambda>p. \<not> key_missing (fs w) p) ps) =
          task_for p b v # tasks_of (takeWhile (\<lambda>p. \<not> key_missing (fs w) p) ps)"
        using Some m by (simp add: tasks_of_def)
      have step: "find_tasks_loop w (p # ps) acc = find_tasks_loop w ps (acc @ [task_for p b v])"
        using Some m True by (simp add: task_for_def)
      show ?thesis
        unfolding step Cons.IH
        using nm by (simp add: sw tk Let_def split: option.split)
    next
      case False
      then have km: "key_missing (fs w) p"
        using Some m by (simp add: key_missing_def key_filename_of_def)
      have kf: "key_filename_of p = b @ v @ ''.bin''"
        using Some m by (simp add: key_filename_of_def)
      have step: "find_tasks_loop w (p # ps) acc =
          (w, Inl (FileNotFoundError (''Missing key file: '' @ b @ v @ ''.bin'')))"
        using Some m False by simp
      show ?thesis
        unfolding step using km by (simp add: kf skip_warnings_def)
    qed
  qed
qed

subsection \<open>Version labels and their sort key\<close>

lemma version_tail_form:
  assumes "version_tail s = Some v"
  shows "\<exists>d1 d2. v = d1 @ CHR ''.'' # d2 \<and> d1 \<noteq> [] \<and> d2 \<noteq> []
           \<and> list_all is_digit d1 \<and> list_all is_digit d2"
proof -
  from assms obtain c r2 where r: "dropWhile is_digit s = c # r2"
    by (auto simp: version_tail_def Let_def split: list.splits)
  with assms have v: "v = takeWhile is_digit s @ CHR ''.'' # takeWhile is_digit r2"
    and n1: "takeWhile is_digit s \<noteq> []" and n2: "takeWhile is_digit r2 \<noteq> []"
    by (auto simp: version_tail_def Let_def split: if_splits)
  have "list_all is_digit (takeWhile is_digit s)" "list_all is_digit (takeWhile is_digit r2)"
    by (auto simp: list_all_iff dest: set_takeWhileD)
  with v n1 n2 show ?thesis by blast
qed

lemma match_from_form:
  "match_from base s = Some (b, v) \<Longrightarrow>
     \<exists>d1 d2. v = d1 @ CHR ''.'' # d2 \<and> d1 \<noteq> [] \<and> d2 \<noteq> []
       \<and> list_all is_digit d1 \<and> list_all is_digit d2"
proof (induction s arbitrary: base)
  case Nil
  then show ?case by simp
next
  case (Cons c cs)
  show ?case
  proof (cases "version_tail cs")
    case None
    with Cons.prems have "match_from (base @ [c]) cs = Some (b, v)"
      by (simp split: if_splits)
    then show ?thesis by (rule Cons.IH)
  next
    case (Some v')
    with Cons.prems have "v' = v" by (simp split: if_splits)
    with Some have "version_tail cs = Some v" by simp
    then show ?thesis by (rule version_tail_form)
  qed
qed

lemma match_filename_form:
  "match_filename n = Some (b, v) \<Longrightarrow>
     \<exists>d1 d2. v = d1 @ CHR ''.'' # d2 \<and> d1 \<noteq> [] \<and> d2 \<noteq> []
       \<and> list_all is_digit d1 \<and> list_all is_digit d2"
  unfolding match_filename_def by (rule match_from_form)

lemma digit_facts:
  "is_digit c \<Longrightarrow> c \<noteq> CHR ''.'' \<and> c \<noteq> CHR ''-'' \<and> c \<noteq> CHR ''+'' \<and> c \<noteq> CHR ''_'' \<and> \<not> is_space c"
  by (auto simp: is_digit_def is_space_def)

lemma strip_where_id:
  "s \<noteq> [] \<Longrightarrow> \<not> P (hd s) \<Longrightarrow> \<not> P (last s) \<Longrightarrow> strip_where P s = s"
proof -
  assume a: "s \<noteq> []" "\<not> P (hd s)" "\<not> P (last s)"
  then have 1: "dropWhile P s = s" by (cases s) simp_all
  from a have "rev s \<noteq> []" "\<not> P (hd (rev s))" by (simp_all add: hd_rev)
  then have 2: "dropWhile P (rev s) = rev s" by (cases "rev s") simp_all
  show ?thesis by (simp add: strip_where_def 1 2)
qed

lemma no_double_underscore_digits: "list_all is_digit ds \<Longrightarrow> no_double_underscore ds"
  by (induction ds rule: no_double_underscore.induct) (auto dest: digit_facts)

lemma py_int_digits:
  assumes "ds \<noteq> []" and "list_all is_digit ds"
  shows "py_int ds = Inr (int (digits_val ds))"
proof -
  from assms have h: "is_digit (hd ds)" and l: "is_digit (last ds)"
    by (simp_all add: list_all_iff)
  then have "py_strip ds = ds"
    using assms(1) by (simp add: py_strip_def strip_where_id digit_facts)
  moreover have "filter (\<lambda>c. c \<noteq> CHR ''_'') ds = ds"
    using assms(2) by (auto simp: list_all_iff filter_id_conv dest: digit_facts)
  moreover have "valid_int_body ds"
    using assms h l
    by (auto simp: valid_int_body_def list_all_iff no_double_underscore_digits)
  ultimately show ?thesis
    using assms(1) h by (simp add: py_int_def Let_def digit_facts)
qed

lemma partition_str_char_first:
  "c \<notin> set a \<Longrightarrow> partition_str [c] (a @ c # b) = Some (a, b)"
  by (induction a) (auto simp: startswith_def)

lemma py_split_no_sep: "c \<notin> set s \<Longrightarrow> py_split [c] s = [s]"
  by (subst py_split.simps) (simp add: partition_str_char_None)

lemma py_split_dotted:
  assumes "list_all is_digit d1" and "list_all is_digit d2"
  shows "py_split ''.'' (d1 @ CHR ''.'' # d2) = [d1, d2]"
proof -
  from assms have 1: "CHR ''.'' \<notin> set d1" and 2: "CHR ''.'' \<notin> set d2"
    by (auto simp: list_all_iff dest: digit_facts)
  have "py_split ''.'' (d1 @ CHR ''.'' # d2) = d1 # py_split ''.'' d2"
    by (subst py_split.simps) (simp add: partition_str_char_first [OF 1])
  with 2 show ?thesis by (simp add: py_split_no_sep)
qed

lemma version_sort_key_dotted:
  assumes "version t = d1 @ CHR ''.'' # d2" and "d1 \<noteq> []" and "d2 \<noteq> []"
    and "list_all is_digit d1" and "list_all is_digit d2"
  shows "version_sort_key t = Inr (version_numbers (version t))"
    and "version_numbers (version t) = [int (digits_val d1), int (digits_val d2)]"
  using assms
  by (simp_all add: version_sort_key_def version_numbers_def py_split_dotted py_int_digits)

subsection \<open>Sorting with a key that does not raise\<close>

lemma map_errors_total:
  "(\<And>x. x \<in> set xs \<Longrightarrow> k x = Inr (g x)) \<Longrightarrow> map_errors k xs = Inr (map g xs)"
  by (induction xs) simp_all

lemma insort_key_decorated:
  "insort_key fst (g x, x) (map (\<lambda>y. (g y, y)) ys) = map (\<lambda>y. (g y, y)) (insort_key g x ys)"
  by (induction ys) simp_all

lemma sort_key_decorated:
  "sort_key fst (map (\<lambda>y. (g y, y)) xs) = map (\<lambda>y. (g y, y)) (sort_key g xs)"
  by (induction xs) (simp_all add: insort_key_decorated)

lemma py_sorted_total:
  assumes "\<And>x. x \<in> set xs \<Longrightarrow> k x = Inr (g x)"
  shows "py_sorted k xs = Inr (sort_key g xs)"
proof -
  have z: "zip (map g xs) xs = map (\<lambda>y. (g y, y)) xs"
    by (induction xs) simp_all
  show ?thesis
    by (simp add: py_sorted_def map_errors_total [of xs k g, OF assms] z sort_key_decorated o_def)
qed

subsection \<open>Discovery in closed form\<close>

lemma tasks_of_member:
  "t \<in> set (tasks_of ps) \<Longrightarrow>
     \<exists>p b v. p \<in> set ps \<and> match_filename (basename p) = Some (b, v) \<and> t = task_for p b v"
proof -
  assume "t \<in> set (tasks_of ps)"
  then obtain p where p: "p \<in> set ps"
    and t: "t \<in> set (case match_filename (basename p) of None \<Rightarrow> [] | Some (b, v) \<Rightarrow> [task_for p b v])"
    by (auto simp: tasks_of_def)
  from t obtain b v where "match_filename (basename p) = Some (b, v)" and "t = task_for p b v"
    by (cases "match_filename (basename p)") auto
  with p show ?thesis by blast
qed

lemma tasks_of_sort_key:
  assumes "t \<in> set (tasks_of ps)"
  shows "version_sort_key t = Inr (version_numbers (version t))"
proof -
  from tasks_of_member [OF assms] obtain p b v
    where m: "match_filename (basename p) = Some (b, v)" and t: "t = task_for p b v"
    by blast
  from match_filename_form [OF m] obtain d1 d2
    where "v = d1 @ CHR ''.'' # d2" "d1 \<noteq> []" "d2 \<noteq> []" "list_all is_digit d1" "list_all is_digit d2"
    by blast
  moreover have "version t = v" using t by (simp add: task_for_def)
  ultimately show ?thesis by (simp add: version_sort_key_dotted(1))
qed

lemma find_tasks_eq:
  "find_tasks w =
     (let ps = glob w input_dir ''.m3u8'';
          w' = w\<lparr>trace := trace w @ skip_warnings (takeWhile (\<lambda>p. \<not> key_missing (fs w) p) ps)\<rparr>
      in case find (key_missing (fs w)) ps of
           None \<Rightarrow> (w', Inr (sort_key (\<lambda>t. version_numbers (version t)) (tasks_of ps)))
         | Some p \<Rightarrow> (w', Inl (FileNotFoundError (''Missing key file: '' @ key_filename_of p))))"
proof (cases "find (key_missing (fs w)) (glob w input_dir ''.m3u8'')")
  case None
  then have tw: "takeWhile (\<lambda>p. \<not> key_missing (fs w) p) (glob w input_dir ''.m3u8'') = glob w input_dir ''.m3u8''"
    by (simp add: find_None_iff takeWhile_eq_all_conv)
  show ?thesis
    by (simp add: find_tasks_def find_tasks_loop_eq Let_def None tw
          py_sorted_total [of _ version_sort_key "\<lambda>t. version_numbers (version t)", OF tasks_of_sort_key])
next
  case (Some p)
  then show ?thesis
    by (simp add: find_tasks_def find_tasks_loop_eq Let_def)
qed

lemma find_tasks_result:
  assumes "snd (find_tasks w) = Inr ts"
  shows "ts = sort_key (\<lambda>t. version_numbers (version t)) (tasks_of (glob w input_dir ''.m3u8''))"
  using assms
  by (simp add: find_tasks_eq Let_def split: option.splits)

lemma found_task_form:
  assumes "snd (find_tasks w) = Inr ts" and "t \<in> set ts"
  shows "\<exists>p b v d1 d2. p \<in> set (glob w input_dir ''.m3u8'')
           \<and> match_filename (basename p) = Some (b, v) \<and> t = task_for p b v
           \<and> v = d1 @ CHR ''.'' # d2 \<and> d1 \<noteq> [] \<and> d2 \<noteq> []
           \<and> list_all is_digit d1 \<and> list_all is_digit d2"
proof -
  from assms have "t \<in> set (tasks_of (glob w input_dir ''.m3u8''))"
    by (simp add: find_tasks_result [OF assms(1)])
  from tasks_of_member [OF this] obtain p b v
    where p: "p \<in> set (glob w input_dir ''.m3u8'')"
      and m: "match_filename (basename p) = Some (b, v)" and t: "t = task_for p b v"
    by blast
  from match_filename_form [OF m] p m t show ?thesis by blast
qed

subsection \<open>Discovery after the workspace was reset\<close>

lemma startswith_append: "startswith q p \<Longrightarrow> \<exists>r. q = p @ r"
  by (metis append_take_drop_id startswith_def)

lemma below_base_dir_start: "below base_dir q \<Longrightarrow> startswith q ''p''"
proof -
  assume "below base_dir q"
  then consider "q = ''processing''" | "startswith q ''processing/''"
    by (auto simp: below_def base_dir_def)
  then show ?thesis
  proof cases
    case 1
    then show ?thesis by (simp add: startswith_def)
  next
    case 2
    from startswith_append [OF this] obtain r where "q = ''processing/'' @ r" ..
    then show ?thesis by (simp add: startswith_def)
  qed
qed

lemma key_path_start: "\<not> startswith (path_join input_dir k) ''p''"
  by (cases k) (auto simp: path_join_def input_dir_def startswith_def endswith_def)

lemma dirname_prefix: "dirname q \<noteq> [] \<Longrightarrow> \<exists>r. q = dirname q @ r"
proof -
  assume n: "dirname q \<noteq> []"
  let ?X = "dropWhile (\<lambda>c. c \<noteq> CHR ''/'') (rev q)"
  from n have "tl ?X \<noteq> []" by (simp add: dirname_def)
  then have x: "?X \<noteq> []" by (metis list.sel(2))
  have "rev q = takeWhile (\<lambda>c. c \<noteq> CHR ''/'') (rev q) @ ?X" by simp
  then have "q = rev ?X @ rev (takeWhile (\<lambda>c. c \<noteq> CHR ''/'') (rev q))"
    by (metis rev_append rev_rev_ident)
  moreover from x have "rev ?X = rev (tl ?X) @ [hd ?X]"
    by (metis hd_Cons_tl rev.simps(2))
  ultimately have "q = dirname q @ [hd ?X] @ rev (takeWhile (\<lambda>c. c \<noteq> CHR ''/'') (rev q))"
    by (simp add: dirname_def)
  then show ?thesis ..
qed

lemma input_entry_start: "dirname q = input_dir \<Longrightarrow> \<not> startswith q ''p''"
proof -
  assume d: "dirname q = input_dir"
  then have "dirname q \<noteq> []" by (simp add: input_dir_def)
  from dirname_prefix [OF this] obtain r where "q = dirname q @ r" ..
  with d have "q = ''inputfiles'' @ r" by (simp add: input_dir_def)
  then show ?thesis by (simp add: startswith_def)
qed

lemma map_of_filter_keep:
  "P k \<Longrightarrow> map_of (filter (\<lambda>(q, n). P q) f) k = map_of f k"
  by (induction f) auto

lemma rmtree_other: "\<not> below p q \<Longrightarrow> map_of (rmtree u f p) q = map_of f q"
  using map_of_filter_keep [of "\<lambda>q. \<not> below p q \<or> stays u f q" q f] by (simp add: rmtree_def)

lemma mkdir_other: "mkdir f p = Inr f' \<Longrightarrow> q \<noteq> p \<Longrightarrow> map_of f' q = map_of f q"
  by (auto simp: mkdir_def map_add_def split: option.splits node.splits if_splits)

lemma reset_lookup:
  assumes "mkdir (rmtree u f base_dir) base_dir = Inr f'" and "\<not> startswith q ''p''"
  shows "map_of f' q = map_of f q"
proof -
  from assms(2) have nb: "\<not> below base_dir q"
    using below_base_dir_start by blast
  then have "q \<noteq> base_dir" by (auto simp: below_def)
  with assms(1) have "map_of f' q = map_of (rmtree u f base_dir) q"
    by (rule mkdir_other)
  with nb show ?thesis by (simp add: rmtree_other)
qed

lemma filter_fst_filter:
  "(\<And>q. P q \<Longrightarrow> Q q) \<Longrightarrow> filter P (map fst (filter (\<lambda>(q, n). Q q) f)) = filter P (map fst f)"
  by (induction f) auto

lemma glob_matches_rmtree:
  "glob_matches (rmtree u f base_dir) input_dir s = glob_matches f input_dir s"
proof (cases "map_of f base_dir = Some Dir")
  case True
  have "filter (\<lambda>p. dirname p = input_dir \<and> endswith (basename p) s \<and> \<not> startswith (basename p) ''.'')
          (map fst (filter (\<lambda>(q, n). \<not> below base_dir q \<or> stays u f q) f)) =
        filter (\<lambda>p. dirname p = input_dir \<and> endswith (basename p) s \<and> \<not> startswith (basename p) ''.'')
          (map fst f)"
    by (rule filter_fst_filter) (auto dest: input_entry_start below_base_dir_start)
  with True show ?thesis by (simp add: glob_matches_def rmtree_def)
next
  case False
  then show ?thesis by (simp add: rmtree_def)
qed

lemma glob_matches_mkdir:
  "mkdir f base_dir = Inr f' \<Longrightarrow> glob_matches f' input_dir s = glob_matches f input_dir s"
  by (auto simp: mkdir_def glob_matches_def base_dir_def input_dir_def dirname_def
           split: option.splits node.splits if_splits)

lemma reset_glob:
  assumes "mkdir (rmtree (removal_refused w) (fs w) base_dir) base_dir = Inr f'"
  shows "glob (w\<lparr>fs := f'\<rparr>) input_dir s = glob w input_dir s"
  using glob_matches_mkdir [OF assms, of s]
  by (simp add: glob_def glob_matches_rmtree)

lemma reset_key_missing:
  assumes "mkdir (rmtree u f base_dir) base_dir = Inr f'"
  shows "key_missing f' = key_missing f"
proof
  fix p
  show "key_missing f' p = key_missing f p"
    by (simp add: key_missing_def path_exists_def reset_lookup [OF assms key_path_start])
qed

lemma skip_warnings_takeWhile: "set (skip_warnings (takeWhile P ps)) \<subseteq> set (skip_warnings ps)"
  by (auto simp: skip_warnings_def dest: set_takeWhileD)

lemma trace_final_cleanup:
  "trace (final_cleanup w) =
     trace w @ [Print ([newline] @ ''Performing final cleanup...''), Print ''Cleanup completed'']"
  by (simp add: final_cleanup_def Let_def print_def)

lemma find_tasks_missing:
  assumes "p \<in> set (glob w input_dir ''.m3u8'')" and "key_missing (fs w) p"
  shows "\<exists>q. q \<in> set (glob w input_dir ''.m3u8'') \<and> key_missing (fs w) q
           \<and> find_tasks w =
               (w\<lparr>trace := trace w @ skip_warnings (takeWhile (\<lambda>p. \<not> key_missing (fs w) p)
                                                     (glob w input_dir ''.m3u8''))\<rparr>,
                Inl (FileNotFoundError (''Missing key file: '' @ key_filename_of q)))"
proof -
  from assms have "find (key_missing (fs w)) (glob w input_dir ''.m3u8'') \<noteq> None"
    by (auto simp: find_None_iff)
  then obtain q where q: "find (key_missing (fs w)) (glob w input_dir ''.m3u8'') = Some q"
    by blast
  then have "q \<in> set (glob w input_dir ''.m3u8'')" and "key_missing (fs w) q"
    by (auto simp: find_Some_iff)
  with q show ?thesis by (auto simp: find_tasks_eq Let_def)
qed

lemma main_missing_key:
  assumes "p \<in> set (glob w input_dir ''.m3u8'')" and "key_missing (fs w) p"
  shows "\<exists>e pre. snd (main w) = Inl e
           \<and> trace (fst (main w)) =
               trace w @ pre @ [Print ([newline] @ ''Performing final cleanup...''), Print ''Cleanup completed'']
           \<and> set pre \<subseteq> set (skip_warnings (glob w input_dir ''.m3u8''))"
proof (cases "path_exists (fs w) input_dir")
  case False
  then show ?thesis
    by (simp add: main_def main_body_def trace_final_cleanup)
next
  case True
  show ?thesis
  proof (cases "mkdir (rmtree (removal_refused w) (fs w) base_dir) base_dir")
    case (Inl e)
    with True show ?thesis
      by (simp add: main_def main_body_def trace_final_cleanup)
  next
    case (Inr f')
    let ?w = "w\<lparr>fs := f'\<rparr>"
    have g: "glob ?w input_dir ''.m3u8'' = glob w input_dir ''.m3u8''"
      by (rule reset_glob [OF Inr])
    have k: "key_missing f' = key_missing (fs w)"
      by (rule reset_key_missing [OF Inr])
    from assms have "p \<in> set (glob ?w input_dir ''.m3u8'')" and "key_missing (fs ?w) p"
      by (simp_all add: g k)
    from find_tasks_missing [OF this] obtain q where
      ft: "find_tasks ?w =
             (?w\<lparr>trace := trace ?w @ skip_warnings (takeWhile (\<lambda>p. \<not> key_missing (fs ?w) p)
                                                     (glob ?w input_dir ''.m3u8''))\<rparr>,
              Inl (FileNotFoundError (''Missing key file: '' @ key_filename_of q)))"
      by blast
    have "set (skip_warnings (takeWhile (\<lambda>p. \<not> key_missing (fs ?w) p) (glob ?w input_dir ''.m3u8'')))
            \<subseteq> set (skip_warnings (glob w input_dir ''.m3u8''))"
      unfolding g by (rule skip_warnings_takeWhile)
    with True Inr ft show ?thesis
      by (simp add: main_def main_body_def trace_final_cleanup)
  qed
qed

subsection \<open>Segment indices and segment files\<close>

lemma digit_char_facts:
  assumes "d < 10"
  shows "is_digit (digit_char d)" and "digit_val (digit_char d) = d"
proof -
  from assms have "d \<in> {0, 1, 2, 3, 4, 5, 6, 7, 8, 9}" by auto
  then show "is_digit (digit_char d)" and "digit_val (digit_char d) = d"
    by (auto simp: digit_char_def is_digit_def digit_val_def)
qed

lemma digits_val_snoc: "digits_val (ds @ [c]) = 10 * digits_val ds + digit_val c"
  by (simp add: digits_val_def)

lemma py_str_facts:
  "list_all is_digit (py_str n) \<and> py_str n \<noteq> [] \<and> digits_val (py_str n) = n"
proof (induction n rule: py_str.induct)
  case (1 n)
  show ?case
  proof (cases "n < 10")
    case True
    then show ?thesis
      by (subst (1 2 3) py_str.simps) (simp add: digit_char_facts digits_val_def)
  next
    case False
    have m: "n mod 10 < 10" by simp
    from False "1.IH" show ?thesis
      by (subst (1 2 3) py_str.simps)
         (simp add: digit_char_facts [OF m] digits_val_snoc)
  qed
qed

lemma py_str_inj: "py_str i = py_str j \<Longrightarrow> i = j"
  by (metis py_str_facts)

lemma py_str_no_char: "\<not> is_digit c \<Longrightarrow> c \<notin> set (py_str n)"
  using py_str_facts [of n] by (auto simp: list_all_iff)

lemma path_join_name:
  "\<not> startswith b ''/'' \<Longrightarrow> path_join a b = (if a = [] \<or> endswith a ''/'' then a else a @ ''/'') @ b"
  by (simp add: path_join_def)

lemma segment_name_start: "\<not> startswith (''segment'' @ r) ''/''"
  by (simp add: startswith_def)

lemma segment_file_eq:
  "segment_file d i =
     (if d = [] \<or> endswith d ''/'' then d else d @ ''/'') @ ''segment'' @ py_str i @ ''.ts''"
  unfolding segment_file_def by (rule path_join_name) (rule segment_name_start)

lemma segment_file_inj: "segment_file d i = segment_file d j \<Longrightarrow> i = j"
  by (simp add: segment_file_eq py_str_inj)

lemma endswith_slash: "endswith d ''/'' \<Longrightarrow> \<exists>d'. d = d' @ ''/''"
proof -
  assume "endswith d ''/''"
  then have "drop (length d - 1) d = ''/''" by (simp add: endswith_def)
  moreover have "d = take (length d - 1) d @ drop (length d - 1) d" by simp
  ultimately have "d = take (length d - 1) d @ ''/''" by simp
  then show ?thesis ..
qed

lemma basename_after_slash:
  assumes "CHR ''/'' \<notin> set name"
  shows "basename (x @ CHR ''/'' # name) = name"
proof -
  have "\<And>c. c \<in> set (rev name) \<Longrightarrow> c \<noteq> CHR ''/''"
    using assms by auto
  then have "takeWhile (\<lambda>c. c \<noteq> CHR ''/'') (rev name @ CHR ''/'' # rev x) =
      rev name @ takeWhile (\<lambda>c. c \<noteq> CHR ''/'') (CHR ''/'' # rev x)"
    by (rule takeWhile_append2)
  then show ?thesis by (simp add: basename_def)
qed

lemma basename_plain:
  assumes "CHR ''/'' \<notin> set name"
  shows "basename name = name"
proof -
  have tw: "takeWhile (\<lambda>c. c \<noteq> CHR ''/'') (rev name) = rev name"
    using assms by (auto simp: takeWhile_eq_all_conv)
  show ?thesis by (simp only: basename_def tw rev_rev_ident)
qed

lemma basename_segment_file:
  "basename (segment_file d i) = ''segment'' @ py_str i @ ''.ts''"
proof -
  let ?name = "''segment'' @ py_str i @ ''.ts''"
  have n: "CHR ''/'' \<notin> set ?name"
    using py_str_no_char [of "CHR ''/''" i] by (simp add: is_digit_def)
  consider "d = []" | "endswith d ''/''" | "d \<noteq> []" "\<not> endswith d ''/''" by blast
  then show ?thesis
  proof cases
    case 1
    then show ?thesis using basename_plain [OF n] by (simp add: segment_file_eq)
  next
    case 2
    from endswith_slash [OF this] obtain d' where "d = d' @ ''/''" ..
    with 2 show ?thesis using basename_after_slash [OF n, of d'] by (simp add: segment_file_eq)
  next
    case 3
    then show ?thesis using basename_after_slash [OF n, of d] by (simp add: segment_file_eq)
  qed
qed

lemma partition_str_absent:
  "c \<in> set sep \<Longrightarrow> c \<notin> set s \<Longrightarrow> partition_str sep s = None"
proof (induction s)
  case Nil
  then show ?case by auto
next
  case (Cons x xs)
  have "\<not> startswith (x # xs) sep"
  proof
    assume "startswith (x # xs) sep"
    then have "set sep \<subseteq> set (x # xs)"
      by (metis set_take_subset startswith_def)
    with Cons.prems show False by auto
  qed
  with Cons show ?case by simp
qed

lemma py_split_absent: "c \<in> set sep \<Longrightarrow> c \<notin> set s \<Longrightarrow> py_split sep s = [s]"
  by (subst py_split.simps) (auto simp: partition_str_absent)

lemma segment_sort_key_segment_file: "segment_sort_key (segment_file d i) = Inr (int i)"
proof -
  let ?r = "py_str i @ ''.ts''"
  have g: "CHR ''g'' \<notin> set ?r"
    using py_str_no_char [of "CHR ''g''" i] by (simp add: is_digit_def)
  have dot: "CHR ''.'' \<notin> set (py_str i)"
    using py_str_no_char [of "CHR ''.''" i] by (simp add: is_digit_def)
  have 1: "py_split ''segment'' (''segment'' @ ?r) = [[], ?r]"
    by (subst py_split.simps)
       (simp add: startswith_def py_split_absent [of "CHR ''g''" "''segment''" ?r, OF _ g])
  have "py_split ''.'' (py_str i @ CHR ''.'' # ''ts'') = py_str i # py_split ''.'' ''ts''"
    by (subst py_split.simps) (simp add: partition_str_char_first [OF dot])
  then have 2: "py_split ''.'' ?r = [py_str i, ''ts'']"
    by (simp add: py_split_no_sep)
  have 3: "py_int (py_str i) = Inr (int i)"
    using py_str_facts [of i] by (simp add: py_int_digits)
  show ?thesis
    using 1 2 3 by (simp add: segment_sort_key_def basename_segment_file py_index_def)
qed

subsection \<open>The decryption loop\<close>

lemma trace_openssl: "trace (fst (openssl w a b iv k)) = trace w @ [Openssl a b iv k]"
  by (simp add: openssl_def Let_def record_event_def split: sum.split)

lemma decrypt_loop_trace:
  "\<exists>m \<le> length js.
      trace (fst (decrypt_loop w t iv k js)) = trace w @ map (openssl_call t iv k) (take m js)
    \<and> (snd (decrypt_loop w t iv k js) = Inr () \<longrightarrow> m = length js)"
proof (induction js arbitrary: w)
  case Nil
  show ?case by simp
next
  case (Cons i js)
  let ?o = "openssl w (segment_file (downloaded_dir t) i) (segment_file (decrypted_dir t) i) iv k"
  obtain w' r where o: "?o = (w', r)" by (cases ?o)
  have tr: "trace w' = trace w @ [openssl_call t iv k i]"
    using trace_openssl [of w "segment_file (downloaded_dir t) i" "segment_file (decrypted_dir t) i" iv k] o
    by (simp add: openssl_call_def)
  show ?case
  proof (cases r)
    case (Inl e)
    with o tr have "trace (fst (decrypt_loop w t iv k (i # js))) =
        trace w @ map (openssl_call t iv k) (take 1 (i # js))"
      and "snd (decrypt_loop w t iv k (i # js)) \<noteq> Inr ()"
      by simp_all
    then show ?thesis by (intro exI [of _ 1]) simp
  next
    case (Inr u)
    from Cons.IH [of w'] obtain m where m: "m \<le> length js"
      and t: "trace (fst (decrypt_loop w' t iv k js)) = trace w' @ map (openssl_call t iv k) (take m js)"
      and s: "snd (decrypt_loop w' t iv k js) = Inr () \<longrightarrow> m = length js"
      by blast
    from o Inr have d: "decrypt_loop w t iv k (i # js) = decrypt_loop w' t iv k js"
      by simp
    show ?thesis
      unfolding d using m t s tr by (intro exI [of _ "Suc m"]) simp
  qed
qed

lemma decrypt_segments_trace:
  "\<exists>m \<le> n.
      trace (fst (decrypt_segments w t iv k n)) =
        trace w @ Print ''Decrypting segments...'' # map (openssl_call t iv k) [0..<m]
    \<and> (snd (decrypt_segments w t iv k n) = Inr () \<longrightarrow> m = n)"
proof -
  from decrypt_loop_trace [of "[0..<n]" "print w ''Decrypting segments...''" t iv k]
  obtain m where m: "m \<le> length [0..<n]"
    and t: "trace (fst (decrypt_loop (print w ''Decrypting segments...'') t iv k [0..<n])) =
              trace (print w ''Decrypting segments...'') @ map (openssl_call t iv k) (take m [0..<n])"
    and s: "snd (decrypt_loop (print w ''Decrypting segments...'') t iv k [0..<n]) = Inr ()
              \<longrightarrow> m = length [0..<n]"
    by blast
  from m have mn: "m \<le> n" by simp
  then have tk: "take m [0..<n] = [0..<m]" by (simp add: take_upt)
  have "trace (fst (decrypt_segments w t iv k n)) =
          trace w @ Print ''Decrypting segments...'' # map (openssl_call t iv k) [0..<m]"
    unfolding decrypt_segments_def t tk by (simp add: print_def)
  moreover have "snd (decrypt_segments w t iv k n) = Inr () \<longrightarrow> m = n"
    unfolding decrypt_segments_def using s by simp
  ultimately show ?thesis using mn by blast
qed

subsection \<open>Sorting the decrypted segments\<close>

lemma map_errors_Inr:
  "map_errors k xs = Inr ks \<Longrightarrow> x \<in> set xs \<Longrightarrow> \<exists>v. k x = Inr v"
  by (induction xs arbitrary: ks) (auto split: sum.splits)

lemma py_sorted_Inr:
  assumes "py_sorted k xs = Inr ys"
  shows "ys = sort_key (\<lambda>x. case k x of Inr v \<Rightarrow> v | Inl e \<Rightarrow> d) xs"
proof -
  from assms obtain ks where ks: "map_errors k xs = Inr ks"
    by (auto simp: py_sorted_def split: sum.splits)
  have "\<And>x. x \<in> set xs \<Longrightarrow> k x = Inr (case k x of Inr v \<Rightarrow> v | Inl e \<Rightarrow> d)"
    using map_errors_Inr [OF ks] by force
  from py_sorted_total [of xs k "\<lambda>x. case k x of Inr v \<Rightarrow> v | Inl e \<Rightarrow> d", OF this] assms
  show ?thesis by simp
qed

lemma filter_same_key:
  "distinct xs \<Longrightarrow> inj_on f (set xs) \<Longrightarrow> k \<in> set xs \<Longrightarrow> filter (\<lambda>x. f k = f x) xs = [k]"
proof (induction xs)
  case Nil
  then show ?case by simp
next
  case (Cons a xs)
  show ?case
  proof (cases "k = a")
    case True
    have "filter (\<lambda>x. f a = f x) xs = []"
      using Cons.prems(1,2) by (auto simp: filter_empty_conv inj_on_def)
    with True show ?thesis by simp
  next
    case False
    with Cons.prems have k: "k \<in> set xs" and "f k \<noteq> f a"
      by (auto simp: inj_on_def)
    with Cons show ?thesis by (simp add: inj_on_def)
  qed
qed

lemma sort_key_unique:
  assumes "mset ys = mset xs" and "distinct xs" and "inj_on f (set xs)" and "sorted (map f ys)"
  shows "sort_key f xs = ys"
proof (rule properties_for_sort_key)
  show "mset ys = mset xs" by fact
  show "sorted (map f ys)" by fact
  have s: "set ys = set xs" using assms(1) by (rule mset_eq_setD)
  have dy: "distinct ys" using assms(1,2) by (metis mset_eq_imp_distinct_iff)
  fix k assume k: "k \<in> set ys"
  have "filter (\<lambda>x. f k = f x) ys = [k]"
    using dy assms(3) k by (intro filter_same_key) (simp_all add: s)
  moreover have "filter (\<lambda>x. f k = f x) xs = [k]"
    using assms(2,3) k by (intro filter_same_key) (simp_all add: s)
  ultimately show "filter (\<lambda>x. f k = f x) ys = filter (\<lambda>x. f k = f x) xs" by simp
qed

lemma sorted_map_int: "sorted xs \<Longrightarrow> sorted (map int xs)"
  by (induction xs) auto

lemma segment_index_segment_file: "segment_index (segment_file d i) = int i"
  by (simp add: segment_index_def segment_sort_key_segment_file)

lemma sorted_segments_of_indices:
  assumes "distinct js" and "mset (glob w d ''.ts'') = mset (map (segment_file d) js)"
  shows "sorted_segments w d = Inr (map (segment_file d) (sort js))"
proof -
  let ?xs = "glob w d ''.ts''"
  have s: "set ?xs = segment_file d ` set js"
    using mset_eq_setD [OF assms(2)] by simp
  have key: "\<And>x. x \<in> set ?xs \<Longrightarrow> segment_sort_key x = Inr (segment_index x)"
    using s by (auto simp: segment_sort_key_segment_file segment_index_segment_file)
  have inj: "inj_on (segment_file d) (set js)"
    by (auto simp: inj_on_def dest: segment_file_inj)
  have dx: "distinct ?xs"
    using assms inj by (metis distinct_map mset_eq_imp_distinct_iff)
  have ix: "inj_on segment_index (set ?xs)"
    unfolding s by (auto simp: inj_on_def segment_index_segment_file)
  have "sort_key segment_index ?xs = map (segment_file d) (sort js)"
  proof (rule sort_key_unique [OF _ dx ix])
    show "mset (map (segment_file d) (sort js)) = mset ?xs"
      using assms(2) by simp
    have e: "map segment_index (map (segment_file d) (sort js)) = map int (sort js)"
      by (simp add: segment_index_segment_file)
    have so: "sorted (map int (sort js))"
      by (rule sorted_map_int) simp
    show "sorted (map segment_index (map (segment_file d) (sort js)))"
      unfolding e by (rule so)
  qed
  then show ?thesis
    by (simp add: sorted_segments_def py_sorted_total [of ?xs segment_sort_key segment_index, OF key])
qed

subsection \<open>The download stage\<close>

lemma fetches_append: "fetches (xs @ ys) = fetches xs @ fetches ys"
  by (simp add: fetches_def)

lemma fetches_print: "fetches (trace (print w s)) = fetches (trace w)"
  by (simp add: print_def fetches_def)

lemma write_file_lookup:
  "write_file f p c = Inr f' \<Longrightarrow> map_of f' = (map_of f)(p \<mapsto> File c)"
  by (auto simp: write_file_def update_conv' split: if_splits)

lemma write_file_ok: "write_ok f p \<Longrightarrow> \<exists>f'. write_file f p c = Inr f'"
  by (auto simp: write_file_def write_ok_def)

lemma write_file_not_dir: "write_file f p c = Inr f' \<Longrightarrow> map_of f p \<noteq> Some Dir"
  by (auto simp: write_file_def split: if_splits)

lemma download_segment_facts:
  "fetch (fst (download_segment w t i url)) = fetch w"
  "completion_order (fst (download_segment w t i url)) = completion_order w"
  "trace (fst (download_segment w t i url)) = trace w @ [Fetch i url]"
  by (simp_all add: download_segment_def Let_def record_event_def split: sum.split)

lemma download_segment_fs:
  "fs (fst (download_segment w t i url)) =
     (case fetch w url of
        Inl e \<Rightarrow> fs w
      | Inr c \<Rightarrow> (case write_file (fs w) (segment_file (downloaded_dir t) i) c of
                    Inl e \<Rightarrow> fs w
                  | Inr f \<Rightarrow> f))"
  by (simp add: download_segment_def Let_def record_event_def split: sum.split)

lemma download_segment_other:
  "q \<noteq> segment_file (downloaded_dir t) i \<Longrightarrow>
     map_of (fs (fst (download_segment w t i url))) q = map_of (fs w) q"
  by (auto simp: download_segment_fs dest: write_file_lookup split: sum.split)

lemma download_segment_dir:
  "map_of (fs w) q = Some Dir \<Longrightarrow> map_of (fs (fst (download_segment w t i url))) q = Some Dir"
  by (cases "q = segment_file (downloaded_dir t) i")
     (auto simp: download_segment_fs dest: write_file_lookup write_file_not_dir split: sum.split)

lemma download_segment_failed:
  "fetch w url = Inl e \<Longrightarrow> fs (fst (download_segment w t i url)) = fs w"
  by (simp add: download_segment_fs)

lemma download_segment_written:
  assumes "fetch w url = Inr c" and "write_ok (fs w) (segment_file (downloaded_dir t) i)"
  shows "map_of (fs (fst (download_segment w t i url))) (segment_file (downloaded_dir t) i) = Some (File c)"
proof -
  from write_file_ok [OF assms(2), of c] obtain f'
    where f: "write_file (fs w) (segment_file (downloaded_dir t) i) c = Inr f'" ..
  from write_file_lookup [OF this] assms(1) f show ?thesis
    by (simp add: download_segment_fs)
qed

lemma download_segment_write_ok:
  "write_ok (fs w) p \<Longrightarrow> write_ok (fs (fst (download_segment w t i url))) p"
proof -
  assume a: "write_ok (fs w) p"
  let ?f = "fs (fst (download_segment w t i url))"
  have "map_of ?f p \<noteq> Some Dir"
    using a
    by (cases "p = segment_file (downloaded_dir t) i")
       (auto simp: write_ok_def download_segment_fs dest: write_file_lookup split: sum.split)
  moreover have "dirname p = [] \<or> map_of ?f (dirname p) = Some Dir"
    using a by (auto simp: write_ok_def download_segment_dir)
  ultimately show ?thesis by (simp add: write_ok_def)
qed

lemma run_jobs_step: "run_jobs w t ((i, url) # jobs) = run_jobs (job_step w t i url) t jobs"
  by (simp add: job_step_def split: prod.split sum.split)

lemma job_step_facts:
  "fetch (job_step w t i url) = fetch w"
  "fs (job_step w t i url) = fs (fst (download_segment w t i url))"
  "fetches (trace (job_step w t i url)) = fetches (trace w) @ [(i, url)]"
proof -
  obtain w' r where d: "download_segment w t i url = (w', r)" by (cases "download_segment w t i url")
  have f: "fetch w' = fetch w" and tr: "trace w' = trace w @ [Fetch i url]"
    using download_segment_facts(1,3) [of w t i url] d by simp_all
  show "fetch (job_step w t i url) = fetch w"
    using d f by (cases r) (simp_all add: job_step_def print_def)
  show "fs (job_step w t i url) = fs (fst (download_segment w t i url))"
    using d by (cases r) (simp_all add: job_step_def print_def)
  show "fetches (trace (job_step w t i url)) = fetches (trace w) @ [(i, url)]"
    using d tr by (cases r) (simp_all add: job_step_def print_def fetches_def)
qed

lemma run_jobs_fetch: "fetch (run_jobs w t jobs) = fetch w"
proof (induction jobs arbitrary: w)
  case Nil
  show ?case by simp
next
  case (Cons j jobs)
  obtain i url where j: "j = (i, url)" by (cases j)
  show ?case unfolding j run_jobs_step Cons.IH by (rule job_step_facts(1))
qed

lemma run_jobs_fetches: "fetches (trace (run_jobs w t jobs)) = fetches (trace w) @ jobs"
proof (induction jobs arbitrary: w)
  case Nil
  show ?case by simp
next
  case (Cons j jobs)
  obtain i url where j: "j = (i, url)" by (cases j)
  show ?case unfolding j run_jobs_step Cons.IH by (simp add: job_step_facts(3))
qed

lemma run_jobs_write_ok: "write_ok (fs w) p \<Longrightarrow> write_ok (fs (run_jobs w t jobs)) p"
proof (induction jobs arbitrary: w)
  case Nil
  then show ?case by simp
next
  case (Cons j jobs)
  obtain i url where j: "j = (i, url)" by (cases j)
  from Cons.prems have "write_ok (fs (job_step w t i url)) p"
    by (simp add: job_step_facts(2) download_segment_write_ok)
  then show ?case unfolding j run_jobs_step by (rule Cons.IH)
qed

lemma run_jobs_missing:
  assumes "\<And>u. (i, u) \<in> set jobs \<Longrightarrow> \<exists>e. fetch w u = Inl e"
    and "map_of (fs w) (segment_file (downloaded_dir t) i) = None"
  shows "map_of (fs (run_jobs w t jobs)) (segment_file (downloaded_dir t) i) = None"
  using assms
proof (induction jobs arbitrary: w)
  case Nil
  then show ?case by simp
next
  case (Cons j jobs)
  obtain i' url where j: "j = (i', url)" by (cases j)
  let ?w = "job_step w t i' url"
  have "map_of (fs ?w) (segment_file (downloaded_dir t) i) = None"
  proof (cases "i' = i")
    case True
    with Cons.prems(1) [of url] j obtain e where "fetch w url = Inl e" by auto
    with Cons.prems(2) True show ?thesis
      by (simp add: job_step_facts(2) download_segment_failed)
  next
    case False
    then have "segment_file (downloaded_dir t) i \<noteq> segment_file (downloaded_dir t) i'"
      by (auto dest: segment_file_inj)
    with Cons.prems(2) show ?thesis
      by (simp add: job_step_facts(2) download_segment_other)
  qed
  moreover have "\<And>u. (i, u) \<in> set jobs \<Longrightarrow> \<exists>e. fetch ?w u = Inl e"
    using Cons.prems(1) by (simp add: job_step_facts(1))
  ultimately show ?case unfolding j run_jobs_step by (intro Cons.IH)
qed

lemma run_jobs_kept:
  assumes "\<And>u'. (i, u') \<in> set jobs \<Longrightarrow> u' = u" and "fetch w u = Inr c"
    and "write_ok (fs w) (segment_file (downloaded_dir t) i)"
    and "map_of (fs w) (segment_file (downloaded_dir t) i) = Some (File c)"
  shows "map_of (fs (run_jobs w t jobs)) (segment_file (downloaded_dir t) i) = Some (File c)"
  using assms
proof (induction jobs arbitrary: w)
  case Nil
  then show ?case by simp
next
  case (Cons j jobs)
  obtain i' url where j: "j = (i', url)" by (cases j)
  let ?w = "job_step w t i' url"
  have 1: "map_of (fs ?w) (segment_file (downloaded_dir t) i) = Some (File c)"
  proof (cases "i' = i")
    case True
    with Cons.prems(1) [of url] j have "url = u" by simp
    with Cons.prems(2,3) True show ?thesis
      by (simp add: job_step_facts(2) download_segment_written)
  next
    case False
    then have "segment_file (downloaded_dir t) i \<noteq> segment_file (downloaded_dir t) i'"
      by (auto dest: segment_file_inj)
    with Cons.prems(4) show ?thesis
      by (simp add: job_step_facts(2) download_segment_other)
  qed
  have 2: "write_ok (fs ?w) (segment_file (downloaded_dir t) i)"
    using Cons.prems(3) by (simp add: job_step_facts(2) download_segment_write_ok)
  have 3: "fetch ?w u = Inr c" using Cons.prems(2) by (simp add: job_step_facts(1))
  have 4: "\<And>u'. (i, u') \<in> set jobs \<Longrightarrow> u' = u" using Cons.prems(1) by simp
  show ?case unfolding j run_jobs_step using 4 3 2 1 by (rule Cons.IH)
qed

lemma run_jobs_written:
  assumes "(i, u) \<in> set jobs" and "\<And>u'. (i, u') \<in> set jobs \<Longrightarrow> u' = u" and "fetch w u = Inr c"
    and "write_ok (fs w) (segment_file (downloaded_dir t) i)"
  shows "map_of (fs (run_jobs w t jobs)) (segment_file (downloaded_dir t) i) = Some (File c)"
  using assms
proof (induction jobs arbitrary: w)
  case Nil
  then show ?case by simp
next
  case (Cons j jobs)
  obtain i' url where j: "j = (i', url)" by (cases j)
  let ?w = "job_step w t i' url"
  have 2: "write_ok (fs ?w) (segment_file (downloaded_dir t) i)"
    using Cons.prems(4) by (simp add: job_step_facts(2) download_segment_write_ok)
  have 3: "fetch ?w u = Inr c" using Cons.prems(3) by (simp add: job_step_facts(1))
  have 4: "\<And>u'. (i, u') \<in> set jobs \<Longrightarrow> u' = u" using Cons.prems(2) by simp
  show ?case
  proof (cases "i' = i")
    case True
    with Cons.prems(2) [of url] j have "url = u" by simp
    with Cons.prems(3,4) True
    have "map_of (fs ?w) (segment_file (downloaded_dir t) i) = Some (File c)"
      by (simp add: job_step_facts(2) download_segment_written)
    with 4 3 2 show ?thesis unfolding j run_jobs_step by (rule run_jobs_kept)
  next
    case False
    with Cons.prems(1) j have "(i, u) \<in> set jobs" by simp
    then show ?thesis unfolding j run_jobs_step using 4 3 2 by (rule Cons.IH)
  qed
qed

lemma enumerate_eq: "enumerate xs = map (\<lambda>i. (i, xs ! i)) [0..<length xs]"
  unfolding enumerate_def by (rule nth_equalityI) simp_all

lemma enumerate_member: "(i, u) \<in> set (enumerate xs) \<longleftrightarrow> i < length xs \<and> u = xs ! i"
  by (auto simp: enumerate_eq)

lemma download_segments_eq:
  "download_segments w t segs =
     run_jobs (print w (''Downloading '' @ py_str (length segs) @ '' segments...'')) t
       (completion_order w (enumerate segs))"
  by (simp add: download_segments_def)

lemma download_segments_fetches:
  "fetches (trace (download_segments w t segs)) = fetches (trace w) @ completion_order w (enumerate segs)"
  by (simp add: download_segments_eq run_jobs_fetches fetches_print)

lemma download_segments_missing:
  assumes "mset (completion_order w (enumerate segs)) = mset (enumerate segs)"
    and "i < length segs" and "fetch w (segs ! i) = Inl e"
    and "map_of (fs w) (segment_file (downloaded_dir t) i) = None"
  shows "map_of (fs (download_segments w t segs)) (segment_file (downloaded_dir t) i) = None"
proof -
  have s: "set (completion_order w (enumerate segs)) = set (enumerate segs)"
    using assms(1) by (rule mset_eq_setD)
  show ?thesis
    unfolding download_segments_eq
  proof (rule run_jobs_missing)
    fix u assume "(i, u) \<in> set (completion_order w (enumerate segs))"
    then have "u = segs ! i" by (simp add: s enumerate_member)
    with assms(3) show "\<exists>e. fetch (print w (''Downloading '' @ py_str (length segs) @ '' segments...'')) u = Inl e"
      by (simp add: print_def)
  next
    show "map_of (fs (print w (''Downloading '' @ py_str (length segs) @ '' segments...'')))
            (segment_file (downloaded_dir t) i) = None"
      using assms(4) by (simp add: print_def)
  qed
qed

lemma download_segments_written:
  assumes "mset (completion_order w (enumerate segs)) = mset (enumerate segs)"
    and "i < length segs" and "fetch w (segs ! i) = Inr c"
    and "write_ok (fs w) (segment_file (downloaded_dir t) i)"
  shows "map_of (fs (download_segments w t segs)) (segment_file (downloaded_dir t) i) = Some (File c)"
proof -
  have s: "set (completion_order w (enumerate segs)) = set (enumerate segs)"
    using assms(1) by (rule mset_eq_setD)
  show ?thesis
    unfolding download_segments_eq
  proof (rule run_jobs_written [where u = "segs ! i"])
    show "(i, segs ! i) \<in> set (completion_order w (enumerate segs))"
      using assms(2) by (simp add: s enumerate_member)
    show "\<And>u'. (i, u') \<in> set (completion_order w (enumerate segs)) \<Longrightarrow> u' = segs ! i"
      by (simp add: s enumerate_member)
    show "fetch (print w (''Downloading '' @ py_str (length segs) @ '' segments...'')) (segs ! i) = Inr c"
      using assms(3) by (simp add: print_def)
    show "write_ok (fs (print w (''Downloading '' @ py_str (length segs) @ '' segments...'')))
            (segment_file (downloaded_dir t) i)"
      using assms(4) by (simp add: print_def)
  qed
qed

subsection \<open>What the decryption loop reads and writes\<close>

lemma segment_file_index: "segment_file d i = segment_file d' j \<Longrightarrow> i = j"
proof -
  assume "segment_file d i = segment_file d' j"
  then have "basename (segment_file d i) = basename (segment_file d' j)" by simp
  then show "i = j" by (simp add: basename_segment_file py_str_inj)
qed

lemma openssl_Inr:
  assumes "openssl w a b iv k = (w', Inr u)"
  shows "\<exists>c plain. map_of (fs w) a = Some (File c) \<and> decrypt w c iv k = Inr plain
           \<and> map_of (fs w') = (map_of (fs w))(b \<mapsto> File plain)"
    and "decrypt w' = decrypt w"
  using assms
  by (auto simp: openssl_def Let_def record_event_def read_file_def
           dest: write_file_lookup split: sum.splits option.splits node.splits)

lemma openssl_Inl: "openssl w a b iv k = (w', Inl e) \<Longrightarrow> \<exists>m. e = CalledProcessError m"
  by (auto simp: openssl_def Let_def record_event_def split: sum.splits)

lemma openssl_fs_Inl: "openssl w a b iv k = (w', Inl e) \<Longrightarrow> fs w' = fs w"
  by (auto simp: openssl_def Let_def record_event_def split: sum.splits)

lemma openssl_missing:
  "map_of (fs w) a = None \<Longrightarrow> \<exists>m. snd (openssl w a b iv k) = Inl (CalledProcessError m)"
  by (simp add: openssl_def Let_def record_event_def read_file_def)

lemma decrypt_loop_error:
  "snd (decrypt_loop w t iv k js) = Inl e \<Longrightarrow> \<exists>m. e = CalledProcessError m"
proof (induction js arbitrary: w)
  case Nil
  then show ?case by simp
next
  case (Cons j js)
  let ?o = "openssl w (segment_file (downloaded_dir t) j) (segment_file (decrypted_dir t) j) iv k"
  obtain w' r where o: "?o = (w', r)" by (cases ?o)
  show ?case
  proof (cases r)
    case (Inl e')
    with o Cons.prems have "e' = e" by simp
    with o Inl show ?thesis by (auto dest: openssl_Inl)
  next
    case (Inr u)
    with o Cons.prems have "snd (decrypt_loop w' t iv k js) = Inl e" by simp
    then show ?thesis by (rule Cons.IH)
  qed
qed

lemma decrypt_loop_missing:
  assumes "i \<in> set js" and "map_of (fs w) (segment_file (downloaded_dir t) i) = None"
  shows "\<exists>e. snd (decrypt_loop w t iv k js) = Inl e"
  using assms
proof (induction js arbitrary: w)
  case Nil
  then show ?case by simp
next
  case (Cons j js)
  let ?o = "openssl w (segment_file (downloaded_dir t) j) (segment_file (decrypted_dir t) j) iv k"
  obtain w' r where o: "?o = (w', r)" by (cases ?o)
  show ?case
  proof (cases r)
    case (Inl e')
    with o show ?thesis by simp
  next
    case (Inr u)
    from openssl_Inr(1) [OF o [unfolded Inr]] obtain c plain
      where c: "map_of (fs w) (segment_file (downloaded_dir t) j) = Some (File c)"
        and f: "map_of (fs w') = (map_of (fs w))(segment_file (decrypted_dir t) j \<mapsto> File plain)"
      by blast
    from c Cons.prems(2) have ne: "i \<noteq> j" by auto
    with Cons.prems(1) have i: "i \<in> set js" by simp
    from ne have "segment_file (downloaded_dir t) i \<noteq> segment_file (decrypted_dir t) j"
      by (auto dest: segment_file_index)
    with Cons.prems(2) f have "map_of (fs w') (segment_file (downloaded_dir t) i) = None"
      by simp
    from Cons.IH [OF i this] o Inr show ?thesis by simp
  qed
qed

lemma decrypt_loop_other:
  "q \<notin> segment_file (decrypted_dir t) ` set js \<Longrightarrow>
     map_of (fs (fst (decrypt_loop w t iv k js))) q = map_of (fs w) q"
proof (induction js arbitrary: w)
  case Nil
  show ?case by simp
next
  case (Cons j js)
  let ?o = "openssl w (segment_file (downloaded_dir t) j) (segment_file (decrypted_dir t) j) iv k"
  obtain w' r where o: "?o = (w', r)" by (cases ?o)
  from Cons.prems have q: "q \<noteq> segment_file (decrypted_dir t) j"
    and q': "q \<notin> segment_file (decrypted_dir t) ` set js"
    by auto
  show ?case
  proof (cases r)
    case (Inl e')
    with o openssl_fs_Inl [of w _ _ iv k w' e'] show ?thesis by simp
  next
    case (Inr u)
    from openssl_Inr(1) [OF o [unfolded Inr]] obtain plain
      where f: "map_of (fs w') = (map_of (fs w))(segment_file (decrypted_dir t) j \<mapsto> File plain)"
      by blast
    from Cons.IH [OF q', of w'] f q o Inr show ?thesis by simp
  qed
qed

lemma decrypt_loop_files:
  assumes "snd (decrypt_loop w t iv k js) = Inr ()" and "distinct js" and "i \<in> set js"
  shows "\<exists>c plain. map_of (fs w) (segment_file (downloaded_dir t) i) = Some (File c)
           \<and> decrypt w c iv k = Inr plain
           \<and> map_of (fs (fst (decrypt_loop w t iv k js))) (segment_file (decrypted_dir t) i) = Some (File plain)"
  using assms
proof (induction js arbitrary: w)
  case Nil
  then show ?case by simp
next
  case (Cons j js)
  let ?o = "openssl w (segment_file (downloaded_dir t) j) (segment_file (decrypted_dir t) j) iv k"
  obtain w' r where o: "?o = (w', r)" by (cases ?o)
  from o Cons.prems(1) obtain u where r: "r = Inr u" by (cases r) simp_all
  from o r have d: "decrypt_loop w t iv k (j # js) = decrypt_loop w' t iv k js" by simp
  from openssl_Inr [OF o [unfolded r]] obtain c plain
    where c: "map_of (fs w) (segment_file (downloaded_dir t) j) = Some (File c)"
      and p: "decrypt w c iv k = Inr plain"
      and f: "map_of (fs w') = (map_of (fs w))(segment_file (decrypted_dir t) j \<mapsto> File plain)"
      and dw: "decrypt w' = decrypt w"
    by blast
  show ?case
  proof (cases "i = j")
    case True
    from Cons.prems(2) have "segment_file (decrypted_dir t) j \<notin> segment_file (decrypted_dir t) ` set js"
      by (auto dest: segment_file_inj)
    from decrypt_loop_other [OF this, of w' iv k] f
    have "map_of (fs (fst (decrypt_loop w' t iv k js))) (segment_file (decrypted_dir t) j) = Some (File plain)"
      by simp
    with c p True show ?thesis unfolding d by blast
  next
    case False
    with Cons.prems have i: "i \<in> set js" and dj: "distinct js"
      and s: "snd (decrypt_loop w' t iv k js) = Inr ()"
      unfolding d by simp_all
    from Cons.IH [OF s dj i] obtain c' plain'
      where 1: "map_of (fs w') (segment_file (downloaded_dir t) i) = Some (File c')"
        and 2: "decrypt w' c' iv k = Inr plain'"
        and 3: "map_of (fs (fst (decrypt_loop w' t iv k js))) (segment_file (decrypted_dir t) i) = Some (File plain')"
      by blast
    from False have "segment_file (downloaded_dir t) i \<noteq> segment_file (decrypted_dir t) j"
      by (auto dest: segment_file_index)
    with 1 f have "map_of (fs w) (segment_file (downloaded_dir t) i) = Some (File c')" by simp
    with 2 3 dw show ?thesis unfolding d by auto
  qed
qed

lemma fetches_openssl_calls: "fetches (map (openssl_call t iv k) js) = []"
  by (induction js) (simp_all add: fetches_def openssl_call_def)

lemma decrypt_segments_fetches:
  "fetches (trace (fst (decrypt_segments w t iv k n))) = fetches (trace w)"
proof -
  from decrypt_segments_trace [of n w t iv k] obtain m
    where "trace (fst (decrypt_segments w t iv k n)) =
             trace w @ Print ''Decrypting segments...'' # map (openssl_call t iv k) [0..<m]"
    by blast
  then show ?thesis
    using fetches_append [of "trace w" "Print ''Decrypting segments...'' # map (openssl_call t iv k) [0..<m]"]
          fetches_openssl_calls [of t iv k "[0..<m]"]
    by (simp add: fetches_def)
qed

lemma decrypt_segments_missing:
  assumes "i < n" and "map_of (fs w) (segment_file (downloaded_dir t) i) = None"
  shows "\<exists>m. snd (decrypt_segments w t iv k n) = Inl (CalledProcessError m)"
proof -
  have "\<exists>e. snd (decrypt_loop (print w ''Decrypting segments...'') t iv k [0..<n]) = Inl e"
    using assms by (intro decrypt_loop_missing [of i]) (simp_all add: print_def)
  then obtain e where e: "snd (decrypt_segments w t iv k n) = Inl e"
    by (auto simp: decrypt_segments_def)
  then have "\<exists>m. e = CalledProcessError m"
    unfolding decrypt_segments_def by (rule decrypt_loop_error)
  with e show ?thesis by auto
qed

lemma decrypt_segments_files:
  assumes "snd (decrypt_segments w t iv k n) = Inr ()" and "i < n"
  shows "\<exists>c plain. map_of (fs w) (segment_file (downloaded_dir t) i) = Some (File c)
           \<and> decrypt w c iv k = Inr plain
           \<and> map_of (fs (fst (decrypt_segments w t iv k n))) (segment_file (decrypted_dir t) i) = Some (File plain)"
proof -
  have "\<exists>c plain. map_of (fs (print w ''Decrypting segments...'')) (segment_file (downloaded_dir t) i) = Some (File c)
           \<and> decrypt (print w ''Decrypting segments...'') c iv k = Inr plain
           \<and> map_of (fs (fst (decrypt_loop (print w ''Decrypting segments...'') t iv k [0..<n])))
                (segment_file (decrypted_dir t) i) = Some (File plain)"
    using assms by (intro decrypt_loop_files) (simp_all add: decrypt_segments_def)
  then show ?thesis by (simp add: decrypt_segments_def print_def)
qed

subsection \<open>The stages of a task\<close>

lemma prepare_task_facts:
  "trace (fst (prepare_task w t)) = trace w"
  "fetch (fst (prepare_task w t)) = fetch w"
  "completion_order (fst (prepare_task w t)) = completion_order w"
  by (simp_all add: prepare_task_def Let_def split: sum.split prod.split)

lemma process_task_decrypt_failed:
  assumes "snd (prepare_task (print w0 (processing_message t)) t) = Inr (k, iv, segs)"
    and "snd (decrypt_segments
                (download_segments (fst (prepare_task (print w0 (processing_message t)) t)) t segs)
                t iv k (length segs)) = Inl e"
  shows "snd (process_task w0 t) = Inl e"
    and "trace (fst (process_task w0 t)) =
           trace (fst (decrypt_segments
                (download_segments (fst (prepare_task (print w0 (processing_message t)) t)) t segs)
                t iv k (length segs)))"
proof -
  obtain w2 where p: "prepare_task (print w0 (processing_message t)) t = (w2, Inr (k, iv, segs))"
    using assms(1) by (cases "prepare_task (print w0 (processing_message t)) t") simp
  obtain w3 where d: "decrypt_segments (download_segments w2 t segs) t iv k (length segs) = (w3, Inl e)"
    using assms(2) p by (cases "decrypt_segments (download_segments w2 t segs) t iv k (length segs)") simp
  show "snd (process_task w0 t) = Inl e"
    by (simp add: process_task_def p d)
  show "trace (fst (process_task w0 t)) =
           trace (fst (decrypt_segments
                (download_segments (fst (prepare_task (print w0 (processing_message t)) t)) t segs)
                t iv k (length segs)))"
    by (simp add: process_task_def p d)
qed

subsection \<open>The lines of a task\<close>

lemma task_lines_append: "task_lines (xs @ ys) = task_lines xs @ task_lines ys"
  by (simp add: task_lines_def)

lemma task_line_messages:
  "task_line (Print (processing_message t))"
  "task_line (Print (failed_message t e))"
  by (simp_all add: task_line_def processing_message_def failed_message_def startswith_def)

lemma task_line_others:
  "\<not> task_line (Print (CHR ''D'' # s))"
  "\<not> task_line (Print (CHR ''C'' # s))"
  "\<not> task_line (Print (CHR ''S'' # s))"
  "\<not> task_line (Print (newline # CHR ''S'' # s))"
  "\<not> task_line (Print (newline # CHR ''P'' # CHR ''e'' # s))"
  "\<not> task_line (Report f n)"
  "\<not> task_line (Fetch i u)"
  "\<not> task_line (Openssl a b iv k)"
  "\<not> task_line (Ffmpeg l out)"
  by (simp_all add: task_line_def startswith_def newline_def)

lemma task_lines_print:
  "task_lines (trace (print w s)) = task_lines (trace w) @ (if task_line (Print s) then [Print s] else [])"
  by (simp add: print_def task_lines_def)

lemma task_lines_job_step: "task_lines (trace (job_step w t i url)) = task_lines (trace w)"
proof -
  obtain w' r where d: "download_segment w t i url = (w', r)" by (cases "download_segment w t i url")
  have tr: "trace w' = trace w @ [Fetch i url]"
    using download_segment_facts(3) [of w t i url] d by simp
  show ?thesis
    using d tr by (cases r) (simp_all add: job_step_def task_lines_print task_lines_append task_line_others, simp_all add: task_lines_def task_line_others)
qed

lemma task_lines_run_jobs: "task_lines (trace (run_jobs w t jobs)) = task_lines (trace w)"
proof (induction jobs arbitrary: w)
  case Nil
  show ?case by simp
next
  case (Cons j jobs)
  obtain i url where j: "j = (i, url)" by (cases j)
  show ?case unfolding j run_jobs_step Cons.IH by (rule task_lines_job_step)
qed

lemma task_lines_download_segments:
  "task_lines (trace (download_segments w t segs)) = task_lines (trace w)"
  by (simp add: download_segments_eq task_lines_run_jobs task_lines_print task_line_others)

lemma task_lines_openssl_calls: "task_lines (map (openssl_call t iv k) js) = []"
  by (induction js) (simp_all add: task_lines_def openssl_call_def task_line_others)

lemma task_lines_decrypt_segments:
  "task_lines (trace (fst (decrypt_segments w t iv k n))) = task_lines (trace w)"
proof -
  from decrypt_segments_trace [of n w t iv k] obtain m
    where "trace (fst (decrypt_segments w t iv k n)) =
             trace w @ Print ''Decrypting segments...'' # map (openssl_call t iv k) [0..<m]"
    by blast
  then show ?thesis
    using task_lines_openssl_calls [of t iv k "[0..<m]"]
    by (simp add: task_lines_def task_line_others)
qed

lemma task_lines_ffmpeg: "task_lines (trace (fst (ffmpeg w l out))) = task_lines (trace w)"
  by (simp add: ffmpeg_def Let_def record_event_def task_lines_def task_line_others split: sum.split)

lemma task_lines_concat_segments:
  "task_lines (trace (fst (concat_segments w t))) = task_lines (trace w)"
proof -
  let ?l = "path_join (decrypted_dir t) ''filelist.txt''"
  show ?thesis
  proof (cases "sorted_segments w (decrypted_dir t)")
    case (Inl e)
    then show ?thesis by (simp add: concat_segments_def)
  next
    case (Inr segs)
    show ?thesis
    proof (cases "write_file (fs w) ?l (file_list_text segs)")
      case (Inl e)
      with Inr show ?thesis by (simp add: concat_segments_def)
    next
      case f: (Inr f)
      let ?w = "print (w\<lparr>fs := f\<rparr>) (''Creating '' @ output_file t)"
      obtain w' r where o: "ffmpeg ?w ?l (output_file t) = (w', r)"
        by (cases "ffmpeg ?w ?l (output_file t)")
      have "task_lines (trace w') = task_lines (trace ?w)"
        using task_lines_ffmpeg [of ?w ?l "output_file t"] o by simp
      also have "\<dots> = task_lines (trace w)"
        by (simp add: print_def task_lines_def task_line_others)
      finally have "task_lines (trace w') = task_lines (trace w)" .
      with Inr f o show ?thesis
        by (cases r) (simp_all add: concat_segments_def)
    qed
  qed
qed

lemma task_lines_process_task:
  "task_lines (trace (fst (process_task w t))) = task_lines (trace w) @ [Print (processing_message t)]"
proof -
  let ?w1 = "print w (processing_message t)"
  obtain w2 r where p: "prepare_task ?w1 t = (w2, r)" by (cases "prepare_task ?w1 t")
  have "trace w2 = trace ?w1"
    using prepare_task_facts(1) [of ?w1 t] p by simp
  then have 2: "task_lines (trace w2) = task_lines (trace w) @ [Print (processing_message t)]"
    by (simp add: task_lines_print task_line_messages)
  show ?thesis
  proof (cases r)
    case (Inl e)
    with p 2 show ?thesis by (simp add: process_task_def)
  next
    case (Inr x)
    obtain k iv segs where x: "x = (k, iv, segs)" by (cases x)
    let ?d = "decrypt_segments (download_segments w2 t segs) t iv k (length segs)"
    obtain w3 r' where d: "?d = (w3, r')" by (cases ?d)
    have "task_lines (trace w3) = task_lines (trace (download_segments w2 t segs))"
      using task_lines_decrypt_segments [of "download_segments w2 t segs" t iv k "length segs"] d by simp
    then have 3: "task_lines (trace w3) = task_lines (trace w) @ [Print (processing_message t)]"
      by (simp add: task_lines_download_segments 2)
    show ?thesis
    proof (cases r')
      case (Inl e)
      with p Inr x d 3 show ?thesis by (simp add: process_task_def)
    next
      case r': (Inr u)
      with p Inr x d have "process_task w t = concat_segments w3 t"
        by (simp add: process_task_def)
      then show ?thesis by (simp add: task_lines_concat_segments 3)
    qed
  qed
qed

subsection \<open>The loop over the tasks\<close>

lemma map_fst_outcomes: "map fst (outcomes w tasks) = tasks"
  by (induction tasks arbitrary: w) simp_all

lemma process_all_step:
  "process_all w (t # tasks) outs =
     process_all (fst (process_all w [t] [])) tasks
       (outs @ (case snd (process_task w t) of Inl e \<Rightarrow> [] | Inr out_file \<Rightarrow> [out_file]))"
proof -
  obtain w' r where p: "process_task w t = (w', r)" by (cases "process_task w t")
  show ?thesis using p by (cases r) simp_all
qed

lemma task_lines_process_one:
  "task_lines (trace (fst (process_all w [t] []))) =
     task_lines (trace w) @ Print (processing_message t)
       # (case snd (process_task w t) of Inl e \<Rightarrow> [Print (failed_message t e)] | Inr out_file \<Rightarrow> [])"
proof -
  obtain w' r where p: "process_task w t = (w', r)" by (cases "process_task w t")
  have "task_lines (trace w') = task_lines (trace w) @ [Print (processing_message t)]"
    using task_lines_process_task [of w t] p by simp
  then show ?thesis
    using p by (cases r) (simp_all add: task_lines_print task_line_messages)
qed

lemma process_all_outputs: "snd (process_all w tasks outs) = outs @ outputs_of (outcomes w tasks)"
proof (induction tasks arbitrary: w outs)
  case Nil
  show ?case by (simp add: outputs_of_def)
next
  case (Cons t tasks)
  show ?case
    unfolding process_all_step [of w t tasks outs] Cons.IH
    by (simp add: outputs_of_def)
qed

lemma process_all_lines:
  "task_lines (trace (fst (process_all w tasks outs))) = task_lines (trace w) @ lines_of (outcomes w tasks)"
proof (induction tasks arbitrary: w outs)
  case Nil
  show ?case by (simp add: lines_of_def)
next
  case (Cons t tasks)
  show ?case
    unfolding process_all_step [of w t tasks outs] Cons.IH task_lines_process_one
    by (simp add: lines_of_def)
qed

lemma task_lines_subset: "set (task_lines es) \<subseteq> set es"
  by (auto simp: task_lines_def)

lemma lines_of_member:
  "t \<in> set (map fst rs) \<Longrightarrow> Print (processing_message t) \<in> set (lines_of rs)"
  "(t, Inl e) \<in> set rs \<Longrightarrow> Print (failed_message t e) \<in> set (lines_of rs)"
  by (force simp: lines_of_def)+

subsection \<open>The run around the loop\<close>

lemma task_lines_skip_warnings: "task_lines (skip_warnings ps) = []"
  by (induction ps) (simp_all add: skip_warnings_def task_lines_def task_line_others split: option.split)

lemma task_lines_find_tasks: "task_lines (trace (fst (find_tasks w))) = task_lines (trace w)"
  by (simp add: find_tasks_eq Let_def task_lines_append task_lines_skip_warnings split: option.split)

lemma task_lines_report_files: "task_lines (trace (report_files w files)) = task_lines (trace w)"
  by (induction files arbitrary: w)
     (simp_all add: record_event_def task_lines_def task_line_others split: option.split node.split)

lemma task_lines_final_cleanup: "task_lines (trace (final_cleanup w)) = task_lines (trace w)"
  by (simp add: trace_final_cleanup task_lines_def task_line_others)

lemma main_tasks:
  assumes "path_exists (fs w) input_dir" and "mkdir (rmtree (removal_refused w) (fs w) base_dir) base_dir = Inr f"
    and "snd (find_tasks (w\<lparr>fs := f\<rparr>)) = Inr tasks" and "tasks \<noteq> []"
  shows "snd (main w) = Inr ()"
    and "task_lines (trace (fst (main w))) =
           task_lines (trace w) @ lines_of (outcomes (fst (find_tasks (w\<lparr>fs := f\<rparr>))) tasks)"
proof -
  obtain w1 where ft: "find_tasks (w\<lparr>fs := f\<rparr>) = (w1, Inr tasks)"
    using assms(3) by (cases "find_tasks (w\<lparr>fs := f\<rparr>)") simp
  obtain w2 outs where pa: "process_all w1 tasks [] = (w2, outs)"
    by (cases "process_all w1 tasks []")
  let ?w3 = "report_files (print w2 ([newline] @ ''Successfully created files:'')) outs"
  have mb: "main_body w = (?w3, Inr ())"
    using assms(1,2,4) ft pa by (simp add: main_body_def)
  then show "snd (main w) = Inr ()"
    by (simp add: main_def)
  have 1: "task_lines (trace w1) = task_lines (trace w)"
    using task_lines_find_tasks [of "w\<lparr>fs := f\<rparr>"] ft by simp
  have 2: "task_lines (trace w2) = task_lines (trace w1) @ lines_of (outcomes w1 tasks)"
    using process_all_lines [of w1 tasks "[]"] pa by simp
  have "task_lines (trace (fst (main w))) = task_lines (trace w2)"
    using mb
    by (simp add: main_def task_lines_final_cleanup task_lines_report_files task_lines_print
                  task_line_others)
  with 1 2 ft show "task_lines (trace (fst (main w))) =
           task_lines (trace w) @ lines_of (outcomes (fst (find_tasks (w\<lparr>fs := f\<rparr>))) tasks)"
    by simp
qed

subsection \<open>What a run leaves of the workspace\<close>

lemma removal_refused_print: "removal_refused (print w s) = removal_refused w"
  by (simp add: print_def)

lemma mkdir_dir: "mkdir f p = Inr f' \<Longrightarrow> map_of f q = Some Dir \<Longrightarrow> map_of f' q = Some Dir"
  by (auto simp: mkdir_def map_add_def split: option.splits node.splits if_splits)

lemma mkdirs_dir: "mkdirs f ds = Inr f' \<Longrightarrow> map_of f q = Some Dir \<Longrightarrow> map_of f' q = Some Dir"
proof (induction ds arbitrary: f)
  case Nil
  then show ?case by simp
next
  case (Cons d ds)
  from Cons.prems(1) obtain f1 where m: "mkdir f d = Inr f1" and r: "mkdirs f1 ds = Inr f'"
    by (auto split: sum.splits)
  from mkdir_dir [OF m Cons.prems(2)] have "map_of f1 q = Some Dir" .
  with r show ?case by (rule Cons.IH)
qed

lemma write_file_dir:
  "write_file f p c = Inr f' \<Longrightarrow> map_of f q = Some Dir \<Longrightarrow> map_of f' q = Some Dir"
  by (cases "q = p") (auto dest: write_file_lookup write_file_not_dir)

lemma prepare_task_dir:
  assumes "map_of (fs w) q = Some Dir"
  shows "map_of (fs (fst (prepare_task w t))) q = Some Dir"
proof (cases "mkdir_parents (fs w) (downloaded_dir t)")
  case (Inl e)
  with assms show ?thesis by (simp add: prepare_task_def)
next
  case 1: (Inr f1)
  from mkdirs_dir [OF 1 [unfolded mkdir_parents_def] assms] have d1: "map_of f1 q = Some Dir" .
  show ?thesis
  proof (cases "mkdir_parents f1 (decrypted_dir t)")
    case (Inl e)
    with 1 d1 show ?thesis by (simp add: prepare_task_def)
  next
    case 2: (Inr f2)
    from mkdirs_dir [OF 2 [unfolded mkdir_parents_def] d1] have "map_of f2 q = Some Dir" .
    with 1 2 show ?thesis
      by (simp add: prepare_task_def Let_def split: sum.split prod.split)
  qed
qed

lemma prepare_task_refused: "removal_refused (fst (prepare_task w t)) = removal_refused w"
  by (simp add: prepare_task_def Let_def split: sum.split prod.split)

lemma job_step_dir:
  "map_of (fs w) q = Some Dir \<Longrightarrow> map_of (fs (job_step w t i url)) q = Some Dir"
  by (simp add: job_step_facts(2) download_segment_dir)

lemma job_step_refused: "removal_refused (job_step w t i url) = removal_refused w"
  by (simp add: job_step_def download_segment_def Let_def record_event_def print_def
           split: sum.split prod.split)

lemma run_jobs_dir:
  "map_of (fs w) q = Some Dir \<Longrightarrow> map_of (fs (run_jobs w t jobs)) q = Some Dir"
proof (induction jobs arbitrary: w)
  case Nil
  then show ?case by simp
next
  case (Cons j jobs)
  obtain i url where j: "j = (i, url)" by (cases j)
  from Cons.prems have "map_of (fs (job_step w t i url)) q = Some Dir" by (rule job_step_dir)
  then show ?case unfolding j run_jobs_step by (rule Cons.IH)
qed

lemma run_jobs_refused: "removal_refused (run_jobs w t jobs) = removal_refused w"
proof (induction jobs arbitrary: w)
  case Nil
  show ?case by simp
next
  case (Cons j jobs)
  obtain i url where j: "j = (i, url)" by (cases j)
  show ?case unfolding j run_jobs_step Cons.IH by (rule job_step_refused)
qed

lemma download_segments_dir:
  "map_of (fs w) q = Some Dir \<Longrightarrow> map_of (fs (download_segments w t segs)) q = Some Dir"
  unfolding download_segments_eq by (rule run_jobs_dir) (simp add: print_def)

lemma download_segments_refused: "removal_refused (download_segments w t segs) = removal_refused w"
  by (simp add: download_segments_eq run_jobs_refused removal_refused_print)

lemma openssl_dir:
  "map_of (fs w) q = Some Dir \<Longrightarrow> map_of (fs (fst (openssl w a b iv k))) q = Some Dir"
  by (auto simp: openssl_def Let_def record_event_def dest: write_file_dir split: sum.split)

lemma openssl_refused: "removal_refused (fst (openssl w a b iv k)) = removal_refused w"
  by (simp add: openssl_def Let_def record_event_def split: sum.split)

lemma decrypt_loop_keeps:
  "(map_of (fs w) q = Some Dir \<longrightarrow> map_of (fs (fst (decrypt_loop w t iv k js))) q = Some Dir)
   \<and> removal_refused (fst (decrypt_loop w t iv k js)) = removal_refused w"
proof (induction js arbitrary: w)
  case Nil
  show ?case by simp
next
  case (Cons j js)
  let ?o = "openssl w (segment_file (downloaded_dir t) j) (segment_file (decrypted_dir t) j) iv k"
  obtain w' r where o: "?o = (w', r)" by (cases ?o)
  have 1: "map_of (fs w) q = Some Dir \<longrightarrow> map_of (fs w') q = Some Dir"
    using openssl_dir [of w q "segment_file (downloaded_dir t) j" "segment_file (decrypted_dir t) j" iv k] o
    by simp
  have 2: "removal_refused w' = removal_refused w"
    using openssl_refused [of w "segment_file (downloaded_dir t) j" "segment_file (decrypted_dir t) j" iv k] o
    by simp
  show ?case
  proof (cases r)
    case (Inl e)
    with o 1 2 show ?thesis by simp
  next
    case (Inr u)
    with o have "decrypt_loop w t iv k (j # js) = decrypt_loop w' t iv k js" by simp
    with Cons.IH [of w'] 1 2 show ?thesis by simp
  qed
qed

lemma decrypt_segments_keeps:
  "(map_of (fs w) q = Some Dir \<longrightarrow> map_of (fs (fst (decrypt_segments w t iv k n))) q = Some Dir)
   \<and> removal_refused (fst (decrypt_segments w t iv k n)) = removal_refused w"
  using decrypt_loop_keeps [of "print w ''Decrypting segments...''" q t iv k "[0..<n]"]
  by (simp add: decrypt_segments_def print_def)

lemma ffmpeg_keeps:
  "(map_of (fs w) q = Some Dir \<longrightarrow> map_of (fs (fst (ffmpeg w l out))) q = Some Dir)
   \<and> removal_refused (fst (ffmpeg w l out)) = removal_refused w"
  by (auto simp: ffmpeg_def Let_def record_event_def dest: write_file_dir split: sum.split)

lemma concat_segments_keeps:
  "(map_of (fs w) q = Some Dir \<longrightarrow> map_of (fs (fst (concat_segments w t))) q = Some Dir)
   \<and> removal_refused (fst (concat_segments w t)) = removal_refused w"
proof -
  let ?l = "path_join (decrypted_dir t) ''filelist.txt''"
  show ?thesis
  proof (cases "sorted_segments w (decrypted_dir t)")
    case (Inl e)
    then show ?thesis by (simp add: concat_segments_def)
  next
    case (Inr segs)
    show ?thesis
    proof (cases "write_file (fs w) ?l (file_list_text segs)")
      case (Inl e)
      with Inr show ?thesis by (simp add: concat_segments_def)
    next
      case f: (Inr f)
      let ?w = "print (w\<lparr>fs := f\<rparr>) (''Creating '' @ output_file t)"
      obtain w' r where o: "ffmpeg ?w ?l (output_file t) = (w', r)"
        by (cases "ffmpeg ?w ?l (output_file t)")
      have 1: "map_of (fs w) q = Some Dir \<longrightarrow> map_of (fs ?w) q = Some Dir"
        using write_file_dir [OF f] by (simp add: print_def)
      have 2: "removal_refused ?w = removal_refused w" by (simp add: print_def)
      from ffmpeg_keeps [of ?w q ?l "output_file t"] o 1 2
      have "(map_of (fs w) q = Some Dir \<longrightarrow> map_of (fs w') q = Some Dir)
            \<and> removal_refused w' = removal_refused w"
        by simp
      with Inr f o show ?thesis
        by (cases r) (simp_all add: concat_segments_def)
    qed
  qed
qed

lemma process_task_keeps:
  "(map_of (fs w) q = Some Dir \<longrightarrow> map_of (fs (fst (process_task w t))) q = Some Dir)
   \<and> removal_refused (fst (process_task w t)) = removal_refused w"
proof -
  let ?w1 = "print w (processing_message t)"
  obtain w2 r where p: "prepare_task ?w1 t = (w2, r)" by (cases "prepare_task ?w1 t")
  have 2: "(map_of (fs w) q = Some Dir \<longrightarrow> map_of (fs w2) q = Some Dir)
           \<and> removal_refused w2 = removal_refused w"
    using prepare_task_dir [of ?w1 q t] prepare_task_refused [of ?w1 t] p
    by (simp add: print_def)
  show ?thesis
  proof (cases r)
    case (Inl e)
    with p 2 show ?thesis by (simp add: process_task_def)
  next
    case (Inr x)
    obtain k iv segs where x: "x = (k, iv, segs)" by (cases x)
    let ?d = "decrypt_segments (download_segments w2 t segs) t iv k (length segs)"
    obtain w3 r' where d: "?d = (w3, r')" by (cases ?d)
    have 3: "(map_of (fs w) q = Some Dir \<longrightarrow> map_of (fs w3) q = Some Dir)
             \<and> removal_refused w3 = removal_refused w"
      using decrypt_segments_keeps [of "download_segments w2 t segs" q t iv k "length segs"] d 2
      by (simp add: download_segments_dir download_segments_refused)
    show ?thesis
    proof (cases r')
      case (Inl e)
      with p Inr x d 3 show ?thesis by (simp add: process_task_def)
    next
      case r': (Inr u)
      with p Inr x d have "process_task w t = concat_segments w3 t"
        by (simp add: process_task_def)
      with concat_segments_keeps [of w3 q t] 3 show ?thesis by simp
    qed
  qed
qed

lemma process_all_keeps:
  "(map_of (fs w) q = Some Dir \<longrightarrow> map_of (fs (fst (process_all w tasks outs))) q = Some Dir)
   \<and> removal_refused (fst (process_all w tasks outs)) = removal_refused w"
proof (induction tasks arbitrary: w outs)
  case Nil
  show ?case by simp
next
  case (Cons t tasks)
  obtain w' r where p: "process_task w t = (w', r)" by (cases "process_task w t")
  have 1: "(map_of (fs w) q = Some Dir \<longrightarrow> map_of (fs w') q = Some Dir)
           \<and> removal_refused w' = removal_refused w"
    using process_task_keeps [of w q t] p by simp
  show ?case
  proof (cases r)
    case (Inl e)
    with p have "process_all w (t # tasks) outs = process_all (print w' (failed_message t e)) tasks outs"
      by simp
    with Cons.IH [of "print w' (failed_message t e)" outs] 1 show ?thesis
      by (simp add: print_def)
  next
    case (Inr out_file)
    with p have "process_all w (t # tasks) outs = process_all w' tasks (outs @ [out_file])"
      by simp
    with Cons.IH [of w' "outs @ [out_file]"] 1 show ?thesis by simp
  qed
qed

lemma find_tasks_keeps:
  "fs (fst (find_tasks w)) = fs w \<and> removal_refused (fst (find_tasks w)) = removal_refused w"
  by (simp add: find_tasks_eq Let_def split: option.split)

lemma report_files_keeps:
  "fs (report_files w files) = fs w \<and> removal_refused (report_files w files) = removal_refused w"
  by (induction files arbitrary: w) (simp_all add: record_event_def split: option.split node.split)

lemma rmtree_lookup:
  "map_of (rmtree u f p) q = None \<or> map_of (rmtree u f p) q = map_of f q"
proof (cases "map_of f p = Some Dir")
  case True
  show ?thesis
  proof (cases "\<not> below p q \<or> stays u f q")
    case True
    from map_of_filter_keep [of "\<lambda>q. \<not> below p q \<or> stays u f q" q f, OF this] \<open>map_of f p = Some Dir\<close>
    show ?thesis by (simp add: rmtree_def)
  next
    case False
    from map_of_filter_out [of "\<lambda>q. \<not> below p q \<or> stays u f q" q f, OF this] \<open>map_of f p = Some Dir\<close>
    show ?thesis by (simp add: rmtree_def)
  qed
next
  case False
  then show ?thesis by (simp add: rmtree_def)
qed

lemma mkdir_base_dir:
  assumes "\<And>c. map_of f base_dir \<noteq> Some (File c)"
  shows "\<exists>f'. mkdir f base_dir = Inr f' \<and> map_of f' base_dir = Some Dir"
proof (cases "map_of f base_dir")
  case None
  then show ?thesis
    by (simp add: mkdir_def base_dir_def dirname_def map_add_def)
next
  case (Some n)
  with assms have "n = Dir" by (cases n) auto
  with Some show ?thesis by (simp add: mkdir_def)
qed

lemma main_body_keeps:
  "removal_refused (fst (main_body w)) = removal_refused w"
  "(\<And>c. map_of (fs w) base_dir \<noteq> Some (File c)) \<Longrightarrow>
     map_of (fs (fst (main_body w))) base_dir = None \<or> map_of (fs (fst (main_body w))) base_dir = Some Dir"
proof -
  let ?r = "rmtree (removal_refused w) (fs w) base_dir"
  show "removal_refused (fst (main_body w)) = removal_refused w"
  proof (cases "mkdir ?r base_dir")
    case (Inl e)
    then show ?thesis by (simp add: main_body_def)
  next
    case (Inr f)
    obtain w1 r1 where ft: "find_tasks (w\<lparr>fs := f\<rparr>) = (w1, r1)" by (cases "find_tasks (w\<lparr>fs := f\<rparr>)")
    have 1: "removal_refused w1 = removal_refused w"
      using find_tasks_keeps [of "w\<lparr>fs := f\<rparr>"] ft by simp
    show ?thesis
    proof (cases r1)
      case (Inl e)
      with Inr ft 1 show ?thesis by (simp add: main_body_def)
    next
      case tasks: (Inr tasks)
      obtain w2 outs where pa: "process_all w1 tasks [] = (w2, outs)" by (cases "process_all w1 tasks []")
      have "removal_refused w2 = removal_refused w"
        using process_all_keeps [of w1 base_dir tasks "[]"] pa 1 by simp
      with Inr ft tasks pa 1 show ?thesis
        by (simp add: main_body_def report_files_keeps print_def)
    qed
  qed
next
  let ?r = "rmtree (removal_refused w) (fs w) base_dir"
  assume nf: "\<And>c. map_of (fs w) base_dir \<noteq> Some (File c)"
  show "map_of (fs (fst (main_body w))) base_dir = None \<or> map_of (fs (fst (main_body w))) base_dir = Some Dir"
  proof (cases "path_exists (fs w) input_dir")
    case False
    with nf show ?thesis
      by (cases "map_of (fs w) base_dir") (auto simp: main_body_def intro: node.exhaust)
  next
    case True
    have "\<And>c. map_of ?r base_dir \<noteq> Some (File c)"
      using rmtree_lookup [of "removal_refused w" "fs w" base_dir base_dir] nf by auto
    from mkdir_base_dir [OF this] obtain f
      where m: "mkdir ?r base_dir = Inr f" and d: "map_of f base_dir = Some Dir"
      by blast
    obtain w1 r1 where ft: "find_tasks (w\<lparr>fs := f\<rparr>) = (w1, r1)" by (cases "find_tasks (w\<lparr>fs := f\<rparr>)")
    have 1: "map_of (fs w1) base_dir = Some Dir"
      using find_tasks_keeps [of "w\<lparr>fs := f\<rparr>"] ft d by simp
    show ?thesis
    proof (cases r1)
      case (Inl e)
      with True m ft 1 show ?thesis by (simp add: main_body_def)
    next
      case tasks: (Inr tasks)
      obtain w2 outs where pa: "process_all w1 tasks [] = (w2, outs)" by (cases "process_all w1 tasks []")
      have "map_of (fs w2) base_dir = Some Dir"
        using process_all_keeps [of w1 base_dir tasks "[]"] pa 1 by simp
      with True m ft tasks pa 1 show ?thesis
        by (simp add: main_body_def report_files_keeps print_def)
    qed
  qed
qed

lemma main_eq:
  "fs (fst (main w)) = rmtree (removal_refused w) (fs (fst (main_body w))) base_dir"
  "snd (main w) = snd (main_body w)"
  "trace (fst (main w)) =
     trace (fst (main_body w)) @ [Print ([newline] @ ''Performing final cleanup...''), Print ''Cleanup completed'']"
proof -
  obtain wb r where mb: "main_body w = (wb, r)" by (cases "main_body w")
  have u: "removal_refused wb = removal_refused w"
    using main_body_keeps(1) [of w] mb by simp
  show "fs (fst (main w)) = rmtree (removal_refused w) (fs (fst (main_body w))) base_dir"
    by (simp add: main_def mb final_cleanup_fs u)
  show "snd (main w) = snd (main_body w)"
    by (simp add: main_def mb)
  show "trace (fst (main w)) =
     trace (fst (main_body w)) @ [Print ([newline] @ ''Performing final cleanup...''), Print ''Cleanup completed'']"
    by (simp add: main_def mb trace_final_cleanup)
qed

subsection \<open>The file list and the call of the muxer\<close>

lemma file_list_text_segment_files:
  "file_list_text (map (segment_file d) js) = concat (map list_line js)"
  by (induction js) (simp_all add: file_list_text_def list_line_def basename_segment_file)

lemma write_file_eq: "write_file f p c = Inr f' \<Longrightarrow> f' = AList.update p (File c) f"
  by (auto simp: write_file_def split: if_splits)

lemma ffmpeg_eq:
  assumes "map_of (fs w) l = Some (File content)"
  shows "ffmpeg w l out =
           (case concatenate w content (fs w) of
              Inl e \<Rightarrow> (record_event w (Ffmpeg l out), Inl (CalledProcessError (''ffmpeg: '' @ str_of_error e)))
            | Inr media \<Rightarrow>
                (case write_file (fs w) out media of
                   Inl e \<Rightarrow> (record_event w (Ffmpeg l out), Inl (CalledProcessError (''ffmpeg: '' @ str_of_error e)))
                 | Inr f \<Rightarrow> ((record_event w (Ffmpeg l out))\<lparr>fs := f\<rparr>, Inr ())))"
  using assms by (simp add: ffmpeg_def Let_def record_event_def read_file_def split: sum.split)

lemma ffmpeg_Inr:
  assumes "snd (ffmpeg w l out) = Inr u"
  shows "\<exists>content media. map_of (fs w) l = Some (File content) \<and> concatenate w content (fs w) = Inr media
           \<and> map_of (fs (fst (ffmpeg w l out))) = (map_of (fs w))(out \<mapsto> File media)"
  using assms
  by (auto simp: ffmpeg_def Let_def record_event_def read_file_def
           dest: write_file_lookup split: sum.splits option.splits node.splits)

lemma concat_segments_listed:
  assumes "sorted_segments w (decrypted_dir t) = Inr segs"
    and "write_file (fs w) (task_file_list t) (file_list_text segs) = Inr f"
  shows "concat_segments w t =
           (case ffmpeg (print (w\<lparr>fs := f\<rparr>) (''Creating '' @ output_file t)) (task_file_list t) (output_file t) of
              (w', Inl e) \<Rightarrow> (w', Inl e)
            | (w', Inr u) \<Rightarrow> (w', Inr (output_file t)))"
    and "map_of (fs (print (w\<lparr>fs := f\<rparr>) (''Creating '' @ output_file t))) (task_file_list t) =
           Some (File (file_list_text segs))"
    and "f = AList.update (task_file_list t) (File (file_list_text segs)) (fs w)"
proof -
  show "concat_segments w t =
           (case ffmpeg (print (w\<lparr>fs := f\<rparr>) (''Creating '' @ output_file t)) (task_file_list t) (output_file t) of
              (w', Inl e) \<Rightarrow> (w', Inl e)
            | (w', Inr u) \<Rightarrow> (w', Inr (output_file t)))"
    using assms by (simp add: concat_segments_def task_file_list_def Let_def)
  from write_file_lookup [OF assms(2)]
  show "map_of (fs (print (w\<lparr>fs := f\<rparr>) (''Creating '' @ output_file t))) (task_file_list t) =
           Some (File (file_list_text segs))"
    by (simp add: print_def)
  from assms(2) show "f = AList.update (task_file_list t) (File (file_list_text segs)) (fs w)"
    by (rule write_file_eq)
qed

lemma concat_segments_run:
  assumes "sorted_segments w (decrypted_dir t) = Inr segs" and "write_ok (fs w) (task_file_list t)"
  shows "trace (fst (concat_segments w t)) =
           trace w @ [Print (''Creating '' @ output_file t), Ffmpeg (task_file_list t) (output_file t)]"
    and "snd (concat_segments w t) =
           (case concatenate w (file_list_text segs)
                   (AList.update (task_file_list t) (File (file_list_text segs)) (fs w)) of
              Inl e \<Rightarrow> Inl (CalledProcessError (''ffmpeg: '' @ str_of_error e))
            | Inr media \<Rightarrow>
                (case write_file (AList.update (task_file_list t) (File (file_list_text segs)) (fs w))
                        (output_file t) media of
                   Inl e \<Rightarrow> Inl (CalledProcessError (''ffmpeg: '' @ str_of_error e))
                 | Inr f \<Rightarrow> Inr (output_file t)))"
proof -
  from write_file_ok [OF assms(2), of "file_list_text segs"] obtain f
    where f: "write_file (fs w) (task_file_list t) (file_list_text segs) = Inr f" ..
  let ?w = "print (w\<lparr>fs := f\<rparr>) (''Creating '' @ output_file t)"
  note c = concat_segments_listed [OF assms(1) f]
  note e = ffmpeg_eq [of ?w "task_file_list t" "file_list_text segs" "output_file t", OF c(2)]
  have u: "fs ?w = AList.update (task_file_list t) (File (file_list_text segs)) (fs w)"
    using c(3) by (simp add: print_def)
  have k: "concatenate ?w = concatenate w" by (simp add: print_def)
  show "trace (fst (concat_segments w t)) =
           trace w @ [Print (''Creating '' @ output_file t), Ffmpeg (task_file_list t) (output_file t)]"
    unfolding c(1) e by (simp add: record_event_def print_def split: sum.split)
  show "snd (concat_segments w t) =
           (case concatenate w (file_list_text segs)
                   (AList.update (task_file_list t) (File (file_list_text segs)) (fs w)) of
              Inl e \<Rightarrow> Inl (CalledProcessError (''ffmpeg: '' @ str_of_error e))
            | Inr media \<Rightarrow>
                (case write_file (AList.update (task_file_list t) (File (file_list_text segs)) (fs w))
                        (output_file t) media of
                   Inl e \<Rightarrow> Inl (CalledProcessError (''ffmpeg: '' @ str_of_error e))
                 | Inr f \<Rightarrow> Inr (output_file t)))"
    unfolding c(1) e u k by (simp split: sum.split)
qed

lemma concat_segments_Inr:
  assumes "snd (concat_segments w t) = Inr out"
  shows "\<exists>segs media. sorted_segments w (decrypted_dir t) = Inr segs
           \<and> concatenate w (file_list_text segs)
               (AList.update (task_file_list t) (File (file_list_text segs)) (fs w)) = Inr media
           \<and> out = output_file t
           \<and> trace (fst (concat_segments w t)) =
               trace w @ [Print (''Creating '' @ output_file t), Ffmpeg (task_file_list t) (output_file t)]
           \<and> map_of (fs (fst (concat_segments w t))) =
               (map_of (fs w))(task_file_list t \<mapsto> File (file_list_text segs), output_file t \<mapsto> File media)"
proof -
  from assms obtain segs where s: "sorted_segments w (decrypted_dir t) = Inr segs"
    by (cases "sorted_segments w (decrypted_dir t)") (simp_all add: concat_segments_def)
  from assms s obtain f where f: "write_file (fs w) (task_file_list t) (file_list_text segs) = Inr f"
    by (cases "write_file (fs w) (task_file_list t) (file_list_text segs)")
       (simp_all add: concat_segments_def task_file_list_def)
  let ?w = "print (w\<lparr>fs := f\<rparr>) (''Creating '' @ output_file t)"
  note c = concat_segments_listed [OF s f]
  obtain w' r where o: "ffmpeg ?w (task_file_list t) (output_file t) = (w', r)"
    by (cases "ffmpeg ?w (task_file_list t) (output_file t)")
  from assms o obtain u where r: "r = Inr u" and out: "out = output_file t"
    unfolding c(1) by (cases r) simp_all
  have cw: "concat_segments w t = (w', Inr (output_file t))"
    unfolding c(1) using o r by simp
  from ffmpeg_Inr [of ?w "task_file_list t" "output_file t" u] o r obtain content media
    where 1: "map_of (fs ?w) (task_file_list t) = Some (File content)"
      and 2: "concatenate ?w content (fs ?w) = Inr media"
      and 3: "map_of (fs w') = (map_of (fs ?w))(output_file t \<mapsto> File media)"
    by auto
  from 1 c(2) have tx: "content = file_list_text segs" by simp
  have u: "fs ?w = AList.update (task_file_list t) (File (file_list_text segs)) (fs w)"
    using c(3) by (simp add: print_def)
  have k: "concatenate ?w = concatenate w" by (simp add: print_def)
  have 4: "concatenate w (file_list_text segs)
             (AList.update (task_file_list t) (File (file_list_text segs)) (fs w)) = Inr media"
    using 2 unfolding tx u k .
  have 5: "map_of (fs w') =
             (map_of (fs w))(task_file_list t \<mapsto> File (file_list_text segs), output_file t \<mapsto> File media)"
    unfolding 3 u by (simp add: update_conv')
  have "trace w' = trace ?w @ [Ffmpeg (task_file_list t) (output_file t)]"
    using o by (auto simp: ffmpeg_def Let_def record_event_def split: sum.splits)
  then have 6: "trace w' =
      trace w @ [Print (''Creating '' @ output_file t), Ffmpeg (task_file_list t) (output_file t)]"
    by (simp add: print_def)
  from s 4 out 5 6 show ?thesis unfolding cw by auto
qed

section \<open>The claims\<close>

text \<open>
  C6 (as amended). For a manifest that can be read: if no IV attribute is found on any
  key line, \<open>parse_m3u8\<close> fails, with the error \<^verbatim>\<open>IV not found\<close> when every key line has
  a colon (a key line without one raises \<^verbatim>\<open>IndexError\<close> before the end of the file is
  reached); and when it returns, the IV is the value of the last IV attribute of the
  file without the quotes around it and without a leading \<^verbatim>\<open>0x\<close> or \<^verbatim>\<open>0X\<close>, and the
  segment URLs are exactly the stripped lines that hold the marker \<^verbatim>\<open>.ts?\<close> and are not
  key lines, in file order.
\<close>

theorem parse_m3u8_result:
  assumes "read_file (fs w) p = Inr content"
  shows "(iv_values (readlines content) = [] \<longrightarrow>
            parse_m3u8 w p =
              Inl (if keys_have_colon (readlines content) then iv_not_found p
                   else IndexError ''list index out of range''))
       \<and> (parse_m3u8 w p = Inr (iv, segs) \<longrightarrow>
            iv_values (readlines content) \<noteq> []
          \<and> iv = clean_iv (last (iv_values (readlines content)))
          \<and> segs = segment_lines (readlines content))"
  using assms
  by (auto simp: parse_m3u8_def parse_lines_eq last_iv_def split: if_splits option.splits)

text \<open>The example manifest: the IV \<^verbatim>\<open>0X0a0b\<close> is returned as \<^verbatim>\<open>0a0b\<close>, with the three
  segment lines.\<close>

theorem parse_m3u8_result_witness:
  "parse_m3u8 example_world ''inputfiles/v1.10.m3u8'' =
     Inr (''0a0b'', [''http://h/a.ts?t=1'', ''http://h/b.ts?t=1'', ''http://h/c.ts?t=1''])
   \<and> clean_iv (last (iv_values (readlines example_manifest))) = ''0a0b''
   \<and> segment_lines (readlines example_manifest) =
       [''http://h/a.ts?t=1'', ''http://h/b.ts?t=1'', ''http://h/c.ts?t=1'']"
proof -
  have r: "read_file (fs example_world) ''inputfiles/v1.10.m3u8'' = Inr example_manifest"
    by code_simp
  have p: "parse_m3u8 example_world ''inputfiles/v1.10.m3u8'' =
     Inr (''0a0b'', [''http://h/a.ts?t=1'', ''http://h/b.ts?t=1'', ''http://h/c.ts?t=1''])"
    by code_simp
  from parse_m3u8_result [OF r, of "''0a0b''" "[''http://h/a.ts?t=1'', ''http://h/b.ts?t=1'', ''http://h/c.ts?t=1'']"] p
  show ?thesis by simp
qed

text \<open>
  The claim as it was stated fails where a key line holds the marker: the line is a
  line with the marker, and it is not among the segment URLs.
\<close>

theorem marker_on_key_line_counterexample:
  "parse_m3u8 (world_with_file ''m.m3u8'' key_uri_manifest) ''m.m3u8'' =
     Inr (''01'', [''https://h/a.ts?id=7''])
   \<and> marker_lines (readlines key_uri_manifest) =
       [''#EXT-X-KEY:METHOD=AES-128,URI='' @ [dquote] @ ''https://h/key.ts?id=7'' @ [dquote] @ '',IV=0x01'',
        ''https://h/a.ts?id=7'']
   \<and> [''https://h/a.ts?id=7''] \<noteq> marker_lines (readlines key_uri_manifest)"
  by code_simp

text \<open>
  C10 (as amended). A successful parse always returns an IV that is not empty; and for a
  manifest that can be read and whose key lines all have a colon, the parser fails with
  the same error \<^verbatim>\<open>IV not found\<close> when the file has no IV attribute at all and when the
  last IV attribute of the file has an empty value (such as \<^verbatim>\<open>IV=""\<close> or \<^verbatim>\<open>IV="0x"\<close>).
\<close>

theorem empty_iv_is_absent:
  assumes "read_file (fs w) p = Inr content"
  shows "(parse_m3u8 w p = Inr (iv, segs) \<longrightarrow> iv \<noteq> [])
       \<and> (keys_have_colon (readlines content)
            \<and> (iv_values (readlines content) = []
                \<or> clean_iv (last (iv_values (readlines content))) = []) \<longrightarrow>
          parse_m3u8 w p = Inl (iv_not_found p))"
  using assms
  by (auto simp: parse_m3u8_def parse_lines_eq last_iv_def split: if_splits option.splits)

theorem empty_iv_is_absent_witness:
  "keys_have_colon (readlines empty_iv_manifest)
   \<and> iv_values (readlines empty_iv_manifest) = [[dquote] @ ''0x'' @ [dquote]]
   \<and> clean_iv (last (iv_values (readlines empty_iv_manifest))) = []
   \<and> parse_m3u8 (world_with_file ''m.m3u8'' empty_iv_manifest) ''m.m3u8'' = Inl (iv_not_found ''m.m3u8'')"
proof -
  have r: "read_file (fs (world_with_file ''m.m3u8'' empty_iv_manifest)) ''m.m3u8'' = Inr empty_iv_manifest"
    by code_simp
  have k: "keys_have_colon (readlines empty_iv_manifest)"
    by code_simp
  have v: "iv_values (readlines empty_iv_manifest) = [[dquote] @ ''0x'' @ [dquote]]"
    by code_simp
  have c: "clean_iv (last (iv_values (readlines empty_iv_manifest))) = []"
    by code_simp
  from empty_iv_is_absent [OF r] k c v show ?thesis by simp
qed

text \<open>
  The claim as it was stated fails where a later key line declares another IV: the
  first key line of this manifest has the IV attribute \<^verbatim>\<open>IV=""\<close>, whose value is empty,
  and the parse succeeds with the IV of the second key line.
\<close>

theorem later_iv_overwrites_empty_counterexample:
  "iv_values (readlines two_key_manifest) = [[dquote, dquote], ''0x01'']
   \<and> clean_iv [dquote, dquote] = []
   \<and> parse_m3u8 (world_with_file ''m.m3u8'' two_key_manifest) ''m.m3u8'' =
       Inr (''01'', [''https://h/a.ts?id=7'', ''https://h/b.ts?id=7''])"
  by code_simp

text \<open>
  C4. For every input directory, the tasks that \<open>find_tasks\<close> returns are sorted ascending
  by version label compared component-wise as integers: the labels have two components
  of digits, the key of a task is the list of their values, lists of integers are
  compared lexicographically, and the result is a rearrangement of the tasks of the
  matched manifests. So 1.9 comes before 1.10, and 2.5 before 10.0.
\<close>

theorem tasks_sorted_by_version_numbers:
  assumes "snd (find_tasks w) = Inr ts"
  shows "sorted (map (\<lambda>t. version_numbers (version t)) ts)
       \<and> mset ts = mset (tasks_of (glob w input_dir ''.m3u8''))
       \<and> (\<forall>t \<in> set ts. \<exists>d1 d2. version t = d1 @ ''.'' @ d2
              \<and> d1 \<noteq> [] \<and> list_all is_digit d1 \<and> d2 \<noteq> [] \<and> list_all is_digit d2
              \<and> version_numbers (version t) = [int (digits_val d1), int (digits_val d2)])"
proof (intro conjI ballI)
  show "sorted (map (\<lambda>t. version_numbers (version t)) ts)"
    by (simp add: find_tasks_result [OF assms])
  show "mset ts = mset (tasks_of (glob w input_dir ''.m3u8''))"
    by (simp add: find_tasks_result [OF assms])
next
  fix t assume "t \<in> set ts"
  from found_task_form [OF assms this] obtain p b v d1 d2
    where t: "t = task_for p b v" and v: "v = d1 @ CHR ''.'' # d2"
      and d: "d1 \<noteq> []" "d2 \<noteq> []" "list_all is_digit d1" "list_all is_digit d2"
    by blast
  from t v have vt: "version t = d1 @ CHR ''.'' # d2" by (simp add: task_for_def)
  from version_sort_key_dotted(2) [OF vt d] vt d
  show "\<exists>d1 d2. version t = d1 @ ''.'' @ d2
              \<and> d1 \<noteq> [] \<and> list_all is_digit d1 \<and> d2 \<noteq> [] \<and> list_all is_digit d2
              \<and> version_numbers (version t) = [int (digits_val d1), int (digits_val d2)]"
    by auto
qed

theorem tasks_sorted_by_version_numbers_witness:
  "snd (find_tasks four_versions_world) =
     Inr [task_for ''inputfiles/v1.9.m3u8'' ''v'' ''1.9'', task_for ''inputfiles/v1.10.m3u8'' ''v'' ''1.10'',
          task_for ''inputfiles/v2.5.m3u8'' ''v'' ''2.5'', task_for ''inputfiles/v10.0.m3u8'' ''v'' ''10.0'']
   \<and> sorted [version_numbers ''1.9'', version_numbers ''1.10'', version_numbers ''2.5'', version_numbers ''10.0'']
   \<and> version_numbers ''1.9'' = [1, 9] \<and> version_numbers ''1.10'' = [1, 10]
   \<and> version_numbers ''2.5'' = [2, 5] \<and> version_numbers ''10.0'' = [10, 0]"
proof -
  have e: "snd (find_tasks four_versions_world) =
     Inr [task_for ''inputfiles/v1.9.m3u8'' ''v'' ''1.9'', task_for ''inputfiles/v1.10.m3u8'' ''v'' ''1.10'',
          task_for ''inputfiles/v2.5.m3u8'' ''v'' ''2.5'', task_for ''inputfiles/v10.0.m3u8'' ''v'' ''10.0'']"
    by code_simp
  have n: "version_numbers ''1.9'' = [1, 9]" "version_numbers ''1.10'' = [1, 10]"
    "version_numbers ''2.5'' = [2, 5]" "version_numbers ''10.0'' = [10, 0]"
    by code_simp+
  from tasks_sorted_by_version_numbers [OF e] e n show ?thesis
    by (simp add: task_for_def)
qed


text \<open>
  C5. A manifest whose name matches the pattern and whose key file
  \<^verbatim>\<open><base><version>.bin\<close> is missing from the input directory is fatal for the whole run:
  \<open>find_tasks\<close> raises \<^verbatim>\<open>Missing key file\<close> and returns no task, \<open>main\<close> ends with an error,
  and all that the run does is print warnings for skipped names and the two lines of
  the final cleanup: no task is processed. A name that does not match the pattern is
  not an error: when no matched manifest lacks its key, \<open>find_tasks\<close> returns the tasks
  of the matched manifests and prints one warning for each name that does not match.
\<close>

theorem missing_key_is_fatal_and_nonmatch_is_skipped:
  "(p \<in> set (glob w input_dir ''.m3u8'') \<and> match_filename (basename p) = Some (b, v)
      \<and> \<not> path_exists (fs w) (path_join input_dir (b @ v @ ''.bin'')) \<longrightarrow>
        (\<exists>k. snd (find_tasks w) = Inl (FileNotFoundError (''Missing key file: '' @ k)))
      \<and> (\<exists>e pre. snd (main w) = Inl e
            \<and> trace (fst (main w)) =
                trace w @ pre @ [Print ([newline] @ ''Performing final cleanup...''), Print ''Cleanup completed'']
            \<and> set pre \<subseteq> set (skip_warnings (glob w input_dir ''.m3u8''))))
   \<and> ((\<forall>q \<in> set (glob w input_dir ''.m3u8''). \<not> key_missing (fs w) q) \<longrightarrow>
        snd (find_tasks w) =
          Inr (sort_key (\<lambda>t. version_numbers (version t)) (tasks_of (glob w input_dir ''.m3u8'')))
      \<and> trace (fst (find_tasks w)) = trace w @ skip_warnings (glob w input_dir ''.m3u8'')
      \<and> (\<forall>q \<in> set (glob w input_dir ''.m3u8''). match_filename (basename q) = None \<longrightarrow>
            Print (''Skipping invalid filename format: '' @ basename q) \<in> set (trace (fst (find_tasks w)))))"
proof (intro conjI impI)
  assume a: "p \<in> set (glob w input_dir ''.m3u8'') \<and> match_filename (basename p) = Some (b, v)
      \<and> \<not> path_exists (fs w) (path_join input_dir (b @ v @ ''.bin''))"
  then have p: "p \<in> set (glob w input_dir ''.m3u8'')" and k: "key_missing (fs w) p"
    by (simp_all add: key_missing_def key_filename_of_def)
  from find_tasks_missing [OF p k]
  show "\<exists>k. snd (find_tasks w) = Inl (FileNotFoundError (''Missing key file: '' @ k))"
    by auto
  from main_missing_key [OF p k]
  show "\<exists>e pre. snd (main w) = Inl e
            \<and> trace (fst (main w)) =
                trace w @ pre @ [Print ([newline] @ ''Performing final cleanup...''), Print ''Cleanup completed'']
            \<and> set pre \<subseteq> set (skip_warnings (glob w input_dir ''.m3u8''))" .
next
  assume a: "\<forall>q \<in> set (glob w input_dir ''.m3u8''). \<not> key_missing (fs w) q"
  then have f: "find (key_missing (fs w)) (glob w input_dir ''.m3u8'') = None"
    by (simp add: find_None_iff)
  from a have tw: "takeWhile (\<lambda>p. \<not> key_missing (fs w) p) (glob w input_dir ''.m3u8'')
                    = glob w input_dir ''.m3u8''"
    by (simp add: takeWhile_eq_all_conv)
  show "snd (find_tasks w) =
          Inr (sort_key (\<lambda>t. version_numbers (version t)) (tasks_of (glob w input_dir ''.m3u8'')))"
    by (simp add: find_tasks_eq Let_def f)
  show t: "trace (fst (find_tasks w)) = trace w @ skip_warnings (glob w input_dir ''.m3u8'')"
    by (simp add: find_tasks_eq Let_def f tw)
  show "\<forall>q \<in> set (glob w input_dir ''.m3u8''). match_filename (basename q) = None \<longrightarrow>
            Print (''Skipping invalid filename format: '' @ basename q) \<in> set (trace (fst (find_tasks w)))"
    unfolding t by (force simp: skip_warnings_def)
qed

theorem missing_key_is_fatal_and_nonmatch_is_skipped_witness:
  "snd (find_tasks missing_key_world) = Inl (FileNotFoundError ''Missing key file: v1.9.bin'')
   \<and> snd (main missing_key_world) = Inl (FileNotFoundError ''Missing key file: v1.9.bin'')
   \<and> trace (fst (main missing_key_world)) =
       [Print ''Skipping invalid filename format: notes.m3u8'',
        Print ([newline] @ ''Performing final cleanup...''), Print ''Cleanup completed'']
   \<and> snd (find_tasks example_world) =
       Inr [task_for ''inputfiles/v1.9.m3u8'' ''v'' ''1.9'', task_for ''inputfiles/v1.10.m3u8'' ''v'' ''1.10'']
   \<and> trace (fst (find_tasks example_world)) = [Print ''Skipping invalid filename format: notes.m3u8'']"
proof -
  have h: "''inputfiles/v1.9.m3u8'' \<in> set (glob missing_key_world input_dir ''.m3u8'')
      \<and> match_filename (basename ''inputfiles/v1.9.m3u8'') = Some (''v'', ''1.9'')
      \<and> \<not> path_exists (fs missing_key_world) (path_join input_dir (''v'' @ ''1.9'' @ ''.bin''))"
    by code_simp
  have g: "\<forall>q \<in> set (glob example_world input_dir ''.m3u8''). \<not> key_missing (fs example_world) q"
    by code_simp
  have 1: "snd (find_tasks missing_key_world) = Inl (FileNotFoundError ''Missing key file: v1.9.bin'')"
    by code_simp
  have 2: "snd (main missing_key_world) = Inl (FileNotFoundError ''Missing key file: v1.9.bin'')"
    by code_simp
  have 3: "trace (fst (main missing_key_world)) =
       [Print ''Skipping invalid filename format: notes.m3u8'',
        Print ([newline] @ ''Performing final cleanup...''), Print ''Cleanup completed'']"
    by code_simp
  have 4: "snd (find_tasks example_world) =
       Inr [task_for ''inputfiles/v1.9.m3u8'' ''v'' ''1.9'', task_for ''inputfiles/v1.10.m3u8'' ''v'' ''1.10'']"
    by code_simp
  have 5: "trace (fst (find_tasks example_world)) = [Print ''Skipping invalid filename format: notes.m3u8'']"
    by code_simp
  from missing_key_is_fatal_and_nonmatch_is_skipped
         [of "''inputfiles/v1.9.m3u8''" missing_key_world "''v''" "''1.9''"]
       missing_key_is_fatal_and_nonmatch_is_skipped [of p example_world b v]
       h g 1 2 3 4 5
  show ?thesis by simp
qed

text \<open>
  C8 (as amended). The segment URLs of a playlist are indexed by position from 0: the
  jobs of the pool are the pairs \<open>(i, segs ! i)\<close> for \<open>i\<close> from 0 up to the number of
  URLs less one. The index of a segment fixes both of its file names, and the order in
  which the downloads complete has no part in it: whatever that order is, what was
  fetched from the URL at position \<open>i\<close> is in the file \<^verbatim>\<open>segment{i}.ts\<close> of the download
  directory after the download stage (when the fetch succeeds and the file can be
  written), and when the decrypt stage succeeds, the file \<^verbatim>\<open>segment{i}.ts\<close> of the
  decrypt directory holds the decryption of the file \<^verbatim>\<open>segment{i}.ts\<close> of the download
  directory. Two segment files of one directory are the same file only for the same
  index.
\<close>

theorem segments_indexed_from_zero:
  "enumerate segs = map (\<lambda>i. (i, segs ! i)) [0..<length segs]
   \<and> (mset (completion_order w (enumerate segs)) = mset (enumerate segs) \<and> i < length segs
        \<and> fetch w (segs ! i) = Inr c \<and> write_ok (fs w) (segment_file (downloaded_dir t) i) \<longrightarrow>
      map_of (fs (download_segments w t segs)) (segment_file (downloaded_dir t) i) = Some (File c))
   \<and> (snd (decrypt_segments w t iv k n) = Inr () \<and> i < n \<longrightarrow>
        (\<exists>c plain. map_of (fs w) (segment_file (downloaded_dir t) i) = Some (File c)
           \<and> decrypt w c iv k = Inr plain
           \<and> map_of (fs (fst (decrypt_segments w t iv k n))) (segment_file (decrypted_dir t) i) =
               Some (File plain)))
   \<and> (segment_file d i = segment_file d j \<longleftrightarrow> i = j)
   \<and> basename (segment_file d i) = ''segment'' @ py_str i @ ''.ts''
   \<and> digits_val (py_str i) = i"
proof (intro conjI impI)
  show "enumerate segs = map (\<lambda>i. (i, segs ! i)) [0..<length segs]"
    by (rule enumerate_eq)
next
  assume "mset (completion_order w (enumerate segs)) = mset (enumerate segs) \<and> i < length segs
        \<and> fetch w (segs ! i) = Inr c \<and> write_ok (fs w) (segment_file (downloaded_dir t) i)"
  then show "map_of (fs (download_segments w t segs)) (segment_file (downloaded_dir t) i) = Some (File c)"
    by (intro download_segments_written) simp_all
next
  assume "snd (decrypt_segments w t iv k n) = Inr () \<and> i < n"
  then show "\<exists>c plain. map_of (fs w) (segment_file (downloaded_dir t) i) = Some (File c)
           \<and> decrypt w c iv k = Inr plain
           \<and> map_of (fs (fst (decrypt_segments w t iv k n))) (segment_file (decrypted_dir t) i) =
               Some (File plain)"
    by (intro decrypt_segments_files) simp_all
next
  show "segment_file d i = segment_file d j \<longleftrightarrow> i = j"
    by (auto dest: segment_file_inj)
  show "basename (segment_file d i) = ''segment'' @ py_str i @ ''.ts''"
    by (rule basename_segment_file)
  show "digits_val (py_str i) = i"
    by (simp add: py_str_facts)
qed

text \<open>
  Three segments whose downloads complete in reverse order: the first URL goes to
  \<^verbatim>\<open>segment0.ts\<close>; and the decryption of \<^verbatim>\<open>segment1.ts\<close> goes to \<^verbatim>\<open>segment1.ts\<close>.
\<close>

theorem segments_indexed_from_zero_witness:
  "completion_order prepared_world (enumerate example_segments) =
     [(2, ''http://h/c.ts?t=1''), (1, ''http://h/b.ts?t=1''), (0, ''http://h/a.ts?t=1'')]
   \<and> map_of (fs (download_segments prepared_world (task_for ''inputfiles/v1.0.m3u8'' ''v'' ''1.0'') example_segments))
        ''processing/downloaded_1.0/segment0.ts'' = Some (File ''enc:http://h/a.ts?t=1'')
   \<and> snd (decrypt_segments listing_world (task_for ''inputfiles/v1.0.m3u8'' ''v'' ''1.0'') ''0a0b'' ''6b'' 3) = Inr ()
   \<and> map_of (fs listing_world) ''processing/downloaded_1.0/segment1.ts'' = Some (File ''b'')
   \<and> map_of (fs (fst (decrypt_segments listing_world (task_for ''inputfiles/v1.0.m3u8'' ''v'' ''1.0'') ''0a0b'' ''6b'' 3)))
        ''processing/decrypted_1.0/segment1.ts'' = Some (File ''dec:b'')"
proof -
  let ?t = "task_for ''inputfiles/v1.0.m3u8'' ''v'' ''1.0''"
  have e: "enumerate example_segments =
             [(0, ''http://h/a.ts?t=1''), (1, ''http://h/b.ts?t=1''), (2, ''http://h/c.ts?t=1'')]"
    by code_simp
  have o: "completion_order prepared_world (enumerate example_segments) =
             [(2, ''http://h/c.ts?t=1''), (1, ''http://h/b.ts?t=1''), (0, ''http://h/a.ts?t=1'')]"
    by code_simp
  have m: "mset (completion_order prepared_world (enumerate example_segments)) = mset (enumerate example_segments)"
    by (simp only: o) (simp add: e)
  have l: "0 < length example_segments" by code_simp
  have f: "fetch prepared_world (example_segments ! 0) = Inr ''enc:http://h/a.ts?t=1''"
    by code_simp
  have n0: "segment_file (downloaded_dir ?t) 0 = ''processing/downloaded_1.0/segment0.ts''"
    by code_simp
  have n1: "segment_file (downloaded_dir ?t) 1 = ''processing/downloaded_1.0/segment1.ts''"
    by code_simp
  have n2: "segment_file (decrypted_dir ?t) 1 = ''processing/decrypted_1.0/segment1.ts''"
    by code_simp
  have ok: "write_ok (fs prepared_world) (segment_file (downloaded_dir ?t) 0)"
    by code_simp
  have s: "snd (decrypt_segments listing_world ?t ''0a0b'' ''6b'' 3) = Inr ()"
    by code_simp
  have b: "map_of (fs listing_world) ''processing/downloaded_1.0/segment1.ts'' = Some (File ''b'')"
    by code_simp
  have p: "decrypt listing_world ''b'' ''0a0b'' ''6b'' = Inr ''dec:b''"
    by code_simp
  from segments_indexed_from_zero
         [of example_segments prepared_world 0 "''enc:http://h/a.ts?t=1''" ?t iv k n d j] m l f ok
  have 1: "map_of (fs (download_segments prepared_world ?t example_segments))
             ''processing/downloaded_1.0/segment0.ts'' = Some (File ''enc:http://h/a.ts?t=1'')"
    unfolding n0 by blast
  from segments_indexed_from_zero [of segs listing_world 1 c ?t "''0a0b''" "''6b''" 3 d j] s
  have "\<exists>c plain. map_of (fs listing_world) (segment_file (downloaded_dir ?t) 1) = Some (File c)
           \<and> decrypt listing_world c ''0a0b'' ''6b'' = Inr plain
           \<and> map_of (fs (fst (decrypt_segments listing_world ?t ''0a0b'' ''6b'' 3))) (segment_file (decrypted_dir ?t) 1) =
               Some (File plain)"
    by simp
  then have 2: "map_of (fs (fst (decrypt_segments listing_world ?t ''0a0b'' ''6b'' 3)))
                  ''processing/decrypted_1.0/segment1.ts'' = Some (File ''dec:b'')"
    unfolding n1 n2 using b p by auto
  from o 1 s b 2 show ?thesis by blast
qed

text \<open>
  The claim as it was stated fails on the first index: of three segment URLs, the first
  has the index 0 and is downloaded to \<^verbatim>\<open>segment0.ts\<close>, the last has the index 2, and no
  file \<^verbatim>\<open>segment3.ts\<close> is written.
\<close>

theorem first_segment_has_index_zero_counterexample:
  "enumerate example_segments =
     [(0, ''http://h/a.ts?t=1''), (1, ''http://h/b.ts?t=1''), (2, ''http://h/c.ts?t=1'')]
   \<and> map_of (fs (download_segments prepared_world (task_for ''inputfiles/v1.0.m3u8'' ''v'' ''1.0'') example_segments))
        ''processing/downloaded_1.0/segment0.ts'' = Some (File ''enc:http://h/a.ts?t=1'')
   \<and> map_of (fs (download_segments prepared_world (task_for ''inputfiles/v1.0.m3u8'' ''v'' ''1.0'') example_segments))
        ''processing/downloaded_1.0/segment2.ts'' = Some (File ''enc:http://h/c.ts?t=1'')
   \<and> map_of (fs (download_segments prepared_world (task_for ''inputfiles/v1.0.m3u8'' ''v'' ''1.0'') example_segments))
        ''processing/downloaded_1.0/segment3.ts'' = None"
  by code_simp

text \<open>
  C3. A failed fetch does not stop the other fetches of the task: the download stage
  makes the fetches of all submitted jobs, each once, in the order in which the pool
  completes them, whichever of them fail; a segment whose fetch succeeds is written
  whatever happens to the others, and a segment whose fetch fails is left without its
  file. Nothing is fetched again: a task that reaches the decrypt stage with the file of
  an expected segment missing fails there, with the error of the \<^verbatim>\<open>openssl\<close> run that
  cannot read its input and without another fetch, and then \<open>process_task\<close> fails with
  that error after the fetches of the pool and no others.
\<close>

theorem failed_fetch_is_isolated_and_task_fails:
  "fetches (trace (download_segments w t segs)) = fetches (trace w) @ completion_order w (enumerate segs)
   \<and> (mset (completion_order w (enumerate segs)) = mset (enumerate segs) \<longrightarrow>
        mset (fetches (trace (download_segments w t segs))) = mset (fetches (trace w)) + mset (enumerate segs)
      \<and> (i < length segs \<and> fetch w (segs ! i) = Inr c
            \<and> write_ok (fs w) (segment_file (downloaded_dir t) i) \<longrightarrow>
          map_of (fs (download_segments w t segs)) (segment_file (downloaded_dir t) i) = Some (File c))
      \<and> (j < length segs \<and> fetch w (segs ! j) = Inl e
            \<and> map_of (fs w) (segment_file (downloaded_dir t) j) = None \<longrightarrow>
          map_of (fs (download_segments w t segs)) (segment_file (downloaded_dir t) j) = None))
   \<and> (j < n \<and> map_of (fs w) (segment_file (downloaded_dir t) j) = None \<longrightarrow>
        (\<exists>m. snd (decrypt_segments w t iv k n) = Inl (CalledProcessError m))
      \<and> fetches (trace (fst (decrypt_segments w t iv k n))) = fetches (trace w))
   \<and> (snd (prepare_task (print w (processing_message t)) t) = Inr (k, iv, segs) \<and> j < length segs
        \<and> map_of (fs (download_segments (fst (prepare_task (print w (processing_message t)) t)) t segs))
            (segment_file (downloaded_dir t) j) = None \<longrightarrow>
        (\<exists>m. snd (process_task w t) = Inl (CalledProcessError m))
      \<and> fetches (trace (fst (process_task w t))) = fetches (trace w) @ completion_order w (enumerate segs))"
proof (intro conjI impI)
  show 1: "fetches (trace (download_segments w t segs)) = fetches (trace w) @ completion_order w (enumerate segs)"
    by (rule download_segments_fetches)
  {
    assume m: "mset (completion_order w (enumerate segs)) = mset (enumerate segs)"
    show "mset (fetches (trace (download_segments w t segs))) = mset (fetches (trace w)) + mset (enumerate segs)"
      unfolding 1 using m by simp
    {
      assume "i < length segs \<and> fetch w (segs ! i) = Inr c
            \<and> write_ok (fs w) (segment_file (downloaded_dir t) i)"
      with m show "map_of (fs (download_segments w t segs)) (segment_file (downloaded_dir t) i) = Some (File c)"
        by (intro download_segments_written) simp_all
    }
    {
      assume "j < length segs \<and> fetch w (segs ! j) = Inl e
            \<and> map_of (fs w) (segment_file (downloaded_dir t) j) = None"
      with m show "map_of (fs (download_segments w t segs)) (segment_file (downloaded_dir t) j) = None"
        by (intro download_segments_missing [where e = e]) simp_all
    }
  }
  {
    assume a: "j < n \<and> map_of (fs w) (segment_file (downloaded_dir t) j) = None"
    then show "\<exists>m. snd (decrypt_segments w t iv k n) = Inl (CalledProcessError m)"
      by (intro decrypt_segments_missing [of j]) simp_all
    show "fetches (trace (fst (decrypt_segments w t iv k n))) = fetches (trace w)"
      by (rule decrypt_segments_fetches)
  }
  {
    let ?w2 = "fst (prepare_task (print w (processing_message t)) t)"
    assume a: "snd (prepare_task (print w (processing_message t)) t) = Inr (k, iv, segs) \<and> j < length segs
        \<and> map_of (fs (download_segments ?w2 t segs)) (segment_file (downloaded_dir t) j) = None"
    then have p: "snd (prepare_task (print w (processing_message t)) t) = Inr (k, iv, segs)"
      and j: "j < length segs"
      and f: "map_of (fs (download_segments ?w2 t segs)) (segment_file (downloaded_dir t) j) = None"
      by simp_all
    from decrypt_segments_missing [OF j f, of iv k] obtain m
      where d: "snd (decrypt_segments (download_segments ?w2 t segs) t iv k (length segs)) =
                  Inl (CalledProcessError m)" ..
    from process_task_decrypt_failed(1) [OF p d]
    show "\<exists>m. snd (process_task w t) = Inl (CalledProcessError m)" ..
    have "fetches (trace (fst (process_task w t))) = fetches (trace ?w2) @ completion_order ?w2 (enumerate segs)"
      unfolding process_task_decrypt_failed(2) [OF p d] decrypt_segments_fetches
      by (rule download_segments_fetches)
    then show "fetches (trace (fst (process_task w t))) = fetches (trace w) @ completion_order w (enumerate segs)"
      by (simp add: prepare_task_facts fetches_print) (simp add: print_def)
  }
qed

text \<open>
  Three segments of which the second cannot be fetched: the three fetches are made,
  the first and the third segment are written, the second is missing, the decrypt stage
  fails on it, and so does the task, after three fetches.
\<close>

theorem failed_fetch_is_isolated_and_task_fails_witness:
  "fetch failing_fetch_world (example_segments ! 1) = Inl (RequestException ''404 Client Error'')
   \<and> fetches (trace (download_segments failing_fetch_world (task_for ''inputfiles/v1.0.m3u8'' ''v'' ''1.0'') example_segments)) =
       [(2, ''http://h/c.ts?t=1''), (1, ''http://h/b.ts?t=1''), (0, ''http://h/a.ts?t=1'')]
   \<and> map_of (fs (download_segments failing_fetch_world (task_for ''inputfiles/v1.0.m3u8'' ''v'' ''1.0'') example_segments))
        ''processing/downloaded_1.0/segment0.ts'' = Some (File ''enc:http://h/a.ts?t=1'')
   \<and> map_of (fs (download_segments failing_fetch_world (task_for ''inputfiles/v1.0.m3u8'' ''v'' ''1.0'') example_segments))
        ''processing/downloaded_1.0/segment1.ts'' = None
   \<and> snd (decrypt_segments
            (download_segments failing_fetch_world (task_for ''inputfiles/v1.0.m3u8'' ''v'' ''1.0'') example_segments)
            (task_for ''inputfiles/v1.0.m3u8'' ''v'' ''1.0'') ''0a0b'' ''6b'' 3) =
       Inl (CalledProcessError ''openssl: processing/downloaded_1.0/segment1.ts'')
   \<and> snd (process_task failing_run_world (task_for ''inputfiles/v1.0.m3u8'' ''v'' ''1.0'')) =
       Inl (CalledProcessError ''openssl: processing/downloaded_1.0/segment1.ts'')
   \<and> fetches (trace (fst (process_task failing_run_world (task_for ''inputfiles/v1.0.m3u8'' ''v'' ''1.0'')))) =
       [(2, ''http://h/c.ts?t=1''), (1, ''http://h/b.ts?t=1''), (0, ''http://h/a.ts?t=1'')]"
proof -
  let ?t = "task_for ''inputfiles/v1.0.m3u8'' ''v'' ''1.0''"
  let ?w = failing_fetch_world
  let ?d = "download_segments ?w ?t example_segments"
  have e: "enumerate example_segments =
             [(0, ''http://h/a.ts?t=1''), (1, ''http://h/b.ts?t=1''), (2, ''http://h/c.ts?t=1'')]"
    by code_simp
  have o: "completion_order ?w (enumerate example_segments) =
             [(2, ''http://h/c.ts?t=1''), (1, ''http://h/b.ts?t=1''), (0, ''http://h/a.ts?t=1'')]"
    by code_simp
  have m: "mset (completion_order ?w (enumerate example_segments)) = mset (enumerate example_segments)"
    by (simp only: o) (simp add: e)
  have tr: "fetches (trace ?w) = []" by code_simp
  have l: "0 < length example_segments" "1 < length example_segments" by code_simp+
  have f0: "fetch ?w (example_segments ! 0) = Inr ''enc:http://h/a.ts?t=1''" by code_simp
  have f1: "fetch ?w (example_segments ! 1) = Inl (RequestException ''404 Client Error'')" by code_simp
  have n0: "segment_file (downloaded_dir ?t) 0 = ''processing/downloaded_1.0/segment0.ts''" by code_simp
  have n1: "segment_file (downloaded_dir ?t) 1 = ''processing/downloaded_1.0/segment1.ts''" by code_simp
  have ok: "write_ok (fs ?w) (segment_file (downloaded_dir ?t) 0)" by code_simp
  have ab: "map_of (fs ?w) (segment_file (downloaded_dir ?t) 1) = None" by code_simp
  have ds: "snd (decrypt_segments ?d ?t ''0a0b'' ''6b'' 3) =
       Inl (CalledProcessError ''openssl: processing/downloaded_1.0/segment1.ts'')"
    by code_simp
  have pt: "snd (process_task failing_run_world ?t) =
       Inl (CalledProcessError ''openssl: processing/downloaded_1.0/segment1.ts'')"
    by code_simp
  have pr: "snd (prepare_task (print failing_run_world (processing_message ?t)) ?t) =
              Inr (''6b'', ''0a0b'', example_segments)"
    by code_simp
  have pm: "map_of (fs (download_segments (fst (prepare_task (print failing_run_world (processing_message ?t)) ?t))
                        ?t example_segments))
              (segment_file (downloaded_dir ?t) 1) = None"
    by code_simp
  have tr': "fetches (trace failing_run_world) = []" by code_simp
  have o': "completion_order failing_run_world (enumerate example_segments) =
             [(2, ''http://h/c.ts?t=1''), (1, ''http://h/b.ts?t=1''), (0, ''http://h/a.ts?t=1'')]"
    by code_simp
  note A = failed_fetch_is_isolated_and_task_fails
             [of ?w ?t example_segments 0 "''enc:http://h/a.ts?t=1''" 1 "RequestException ''404 Client Error''" n iv k]
  note B = failed_fetch_is_isolated_and_task_fails
             [of failing_run_world ?t example_segments i c 1 e n "''0a0b''" "''6b''"]
  from A have 1: "fetches (trace ?d) = [(2, ''http://h/c.ts?t=1''), (1, ''http://h/b.ts?t=1''), (0, ''http://h/a.ts?t=1'')]"
    unfolding tr o by simp
  from A m l f0 ok have 2: "map_of (fs ?d) ''processing/downloaded_1.0/segment0.ts'' = Some (File ''enc:http://h/a.ts?t=1'')"
    unfolding n0 by blast
  from A m l f1 ab have 3: "map_of (fs ?d) ''processing/downloaded_1.0/segment1.ts'' = None"
    unfolding n1 by blast
  from B pr l(2) pm
  have "fetches (trace (fst (process_task failing_run_world ?t))) =
          fetches (trace failing_run_world) @ completion_order failing_run_world (enumerate example_segments)"
    by blast
  then have 4: "fetches (trace (fst (process_task failing_run_world ?t))) =
       [(2, ''http://h/c.ts?t=1''), (1, ''http://h/b.ts?t=1''), (0, ''http://h/a.ts?t=1'')]"
    unfolding tr' o' by simp
  from f1 1 2 3 ds pt 4 show ?thesis by blast
qed

text \<open>
  C2. The failure of one task does not stop the run. The loop over the tasks attempts
  every task once, in the order of the list, whatever the outcomes of the tasks before
  it: the output files are those of the tasks that returned, and the lines of the trace
  that speak of a task are, task after task, the line \<^verbatim>\<open>Processing ...\<close> of the task
  followed, when it raised, by the line \<^verbatim>\<open>Failed to process ...\<close> with its base name,
  its version and the error. So every task of the list has its first line in the
  trace, and every task that raised (in the parser, in the decryptor, in the
  concatenator or anywhere else in \<open>process_task\<close>) has the line of its failure. And a run
  that has found at least one task ends without an error, whatever its tasks did, with
  these lines for all of them.
\<close>

theorem task_failure_does_not_stop_the_run:
  "map fst (outcomes w tasks) = tasks
   \<and> snd (process_all w tasks []) = outputs_of (outcomes w tasks)
   \<and> task_lines (trace (fst (process_all w tasks []))) = task_lines (trace w) @ lines_of (outcomes w tasks)
   \<and> (t \<in> set tasks \<longrightarrow> Print (processing_message t) \<in> set (trace (fst (process_all w tasks []))))
   \<and> ((t, Inl e) \<in> set (outcomes w tasks) \<longrightarrow>
         Print (failed_message t e) \<in> set (trace (fst (process_all w tasks []))))
   \<and> failed_message t e = ''Failed to process '' @ base_name t @ '' '' @ version t @ '': '' @ str_of_error e
   \<and> (path_exists (fs w) input_dir \<and> mkdir (rmtree (removal_refused w) (fs w) base_dir) base_dir = Inr f
        \<and> snd (find_tasks (w\<lparr>fs := f\<rparr>)) = Inr tasks \<and> tasks \<noteq> [] \<longrightarrow>
      snd (main w) = Inr ()
      \<and> task_lines (trace (fst (main w))) =
          task_lines (trace w) @ lines_of (outcomes (fst (find_tasks (w\<lparr>fs := f\<rparr>))) tasks))"
proof (intro conjI impI)
  show "map fst (outcomes w tasks) = tasks"
    by (rule map_fst_outcomes)
  show "snd (process_all w tasks []) = outputs_of (outcomes w tasks)"
    by (simp add: process_all_outputs)
  show l: "task_lines (trace (fst (process_all w tasks []))) = task_lines (trace w) @ lines_of (outcomes w tasks)"
    by (rule process_all_lines)
  show "failed_message t e = ''Failed to process '' @ base_name t @ '' '' @ version t @ '': '' @ str_of_error e"
    by (simp add: failed_message_def)
  {
    assume "t \<in> set tasks"
    then have "Print (processing_message t) \<in> set (lines_of (outcomes w tasks))"
      by (intro lines_of_member(1)) (simp add: map_fst_outcomes)
    then have "Print (processing_message t) \<in> set (task_lines (trace (fst (process_all w tasks []))))"
      unfolding l by simp
    then show "Print (processing_message t) \<in> set (trace (fst (process_all w tasks [])))"
      using task_lines_subset by blast
  }
  {
    assume "(t, Inl e) \<in> set (outcomes w tasks)"
    then have "Print (failed_message t e) \<in> set (lines_of (outcomes w tasks))"
      by (rule lines_of_member(2))
    then have "Print (failed_message t e) \<in> set (task_lines (trace (fst (process_all w tasks []))))"
      unfolding l by simp
    then show "Print (failed_message t e) \<in> set (trace (fst (process_all w tasks [])))"
      using task_lines_subset by blast
  }
  {
    assume a: "path_exists (fs w) input_dir \<and> mkdir (rmtree (removal_refused w) (fs w) base_dir) base_dir = Inr f
        \<and> snd (find_tasks (w\<lparr>fs := f\<rparr>)) = Inr tasks \<and> tasks \<noteq> []"
    then show "snd (main w) = Inr ()"
      by (intro main_tasks(1) [of w f tasks]) simp_all
    from a show "task_lines (trace (fst (main w))) =
          task_lines (trace w) @ lines_of (outcomes (fst (find_tasks (w\<lparr>fs := f\<rparr>))) tasks)"
      by (intro main_tasks(2)) simp_all
  }
qed

text \<open>
  The example input directory: the manifest of version 1.9 declares no IV, so the first
  task raises in the parser; the task of version 1.10 is processed after it and gives
  the one output file, and the run ends without an error.
\<close>

theorem task_failure_does_not_stop_the_run_witness:
  "snd (find_tasks (example_world\<lparr>fs := fs example_world @ [(''processing'', Dir)]\<rparr>)) =
     Inr [task_for ''inputfiles/v1.9.m3u8'' ''v'' ''1.9'', task_for ''inputfiles/v1.10.m3u8'' ''v'' ''1.10'']
   \<and> outcomes (fst (find_tasks (example_world\<lparr>fs := fs example_world @ [(''processing'', Dir)]\<rparr>)))
       [task_for ''inputfiles/v1.9.m3u8'' ''v'' ''1.9'', task_for ''inputfiles/v1.10.m3u8'' ''v'' ''1.10''] =
       [(task_for ''inputfiles/v1.9.m3u8'' ''v'' ''1.9'', Inl (ValueError ''IV not found in inputfiles/v1.9.m3u8'')),
        (task_for ''inputfiles/v1.10.m3u8'' ''v'' ''1.10'', Inr ''v 1.10.mp4'')]
   \<and> snd (main example_world) = Inr ()
   \<and> task_lines (trace (fst (main example_world))) =
       [Print ([newline] @ ''Processing v 1.9''),
        Print ''Failed to process v 1.9: IV not found in inputfiles/v1.9.m3u8'',
        Print ([newline] @ ''Processing v 1.10'')]
   \<and> Print ''Failed to process v 1.9: IV not found in inputfiles/v1.9.m3u8''
       \<in> set (trace (fst (process_all example_world
                [task_for ''inputfiles/v1.9.m3u8'' ''v'' ''1.9'', task_for ''inputfiles/v1.10.m3u8'' ''v'' ''1.10''] [])))
   \<and> Print ([newline] @ ''Processing v 1.10'')
       \<in> set (trace (fst (process_all example_world
                [task_for ''inputfiles/v1.9.m3u8'' ''v'' ''1.9'', task_for ''inputfiles/v1.10.m3u8'' ''v'' ''1.10''] [])))"
proof -
  let ?t9 = "task_for ''inputfiles/v1.9.m3u8'' ''v'' ''1.9''"
  let ?t10 = "task_for ''inputfiles/v1.10.m3u8'' ''v'' ''1.10''"
  let ?f = "fs example_world @ [(''processing'', Dir)]"
  let ?e = "ValueError ''IV not found in inputfiles/v1.9.m3u8''"
  have h1: "path_exists (fs example_world) input_dir" by code_simp
  have h2: "mkdir (rmtree (removal_refused example_world) (fs example_world) base_dir) base_dir = Inr ?f" by code_simp
  have h3: "snd (find_tasks (example_world\<lparr>fs := ?f\<rparr>)) = Inr [?t9, ?t10]" by code_simp
  have h4: "[?t9, ?t10] \<noteq> []" by simp
  have o: "outcomes (fst (find_tasks (example_world\<lparr>fs := ?f\<rparr>))) [?t9, ?t10] =
             [(?t9, Inl ?e), (?t10, Inr ''v 1.10.mp4'')]"
    by code_simp
  have o': "(?t9, Inl ?e) \<in> set (outcomes example_world [?t9, ?t10])"
    by code_simp
  have tl: "task_lines (trace example_world) = []" by code_simp
  have ln: "lines_of [(?t9, Inl ?e), (?t10, Inr ''v 1.10.mp4'')] =
       [Print ([newline] @ ''Processing v 1.9''),
        Print ''Failed to process v 1.9: IV not found in inputfiles/v1.9.m3u8'',
        Print ([newline] @ ''Processing v 1.10'')]"
    by code_simp
  have fm: "failed_message ?t9 ?e = ''Failed to process v 1.9: IV not found in inputfiles/v1.9.m3u8''"
    by code_simp
  have pm: "processing_message ?t10 = [newline] @ ''Processing v 1.10''"
    by code_simp
  note A = task_failure_does_not_stop_the_run [of example_world "[?t9, ?t10]" ?t9 ?e ?f]
  note B = task_failure_does_not_stop_the_run [of example_world "[?t9, ?t10]" ?t10 ?e ?f]
  from A h1 h2 h3 h4 have 1: "snd (main example_world) = Inr ()"
    by blast
  from A h1 h2 h3 h4 have "task_lines (trace (fst (main example_world))) =
          task_lines (trace example_world)
            @ lines_of (outcomes (fst (find_tasks (example_world\<lparr>fs := ?f\<rparr>))) [?t9, ?t10])"
    by blast
  then have 2: "task_lines (trace (fst (main example_world))) =
       [Print ([newline] @ ''Processing v 1.9''),
        Print ''Failed to process v 1.9: IV not found in inputfiles/v1.9.m3u8'',
        Print ([newline] @ ''Processing v 1.10'')]"
    unfolding o tl ln by simp
  from A o' have "Print (failed_message ?t9 ?e) \<in> set (trace (fst (process_all example_world [?t9, ?t10] [])))"
    by blast
  then have 3: "Print ''Failed to process v 1.9: IV not found in inputfiles/v1.9.m3u8''
       \<in> set (trace (fst (process_all example_world [?t9, ?t10] [])))"
    unfolding fm .
  from B have "Print (processing_message ?t10) \<in> set (trace (fst (process_all example_world [?t9, ?t10] [])))"
    by simp
  then have 4: "Print ([newline] @ ''Processing v 1.10'')
       \<in> set (trace (fst (process_all example_world [?t9, ?t10] [])))"
    unfolding pm .
  from h3 o 1 2 3 4 show ?thesis by blast
qed

text \<open>
  C7 (as amended). On every exit path of a run (full success, partial failure, or an
  early fatal abort: missing input location, missing key file, zero tasks) the removal
  of the top-level working directory is attempted before the run finishes, with errors
  ignored: however the body of \<open>main\<close> ends, the run ends with that result after
  \<^verbatim>\<open>rmtree\<close> was applied to the path \<^verbatim>\<open>processing\<close> and the two lines of the cleanup were
  printed. When the system refuses the removal of no entry of the workspace, the path is
  not a directory after the run; and when, besides, the path was not a regular file when
  the run started, it does not exist after the run.
\<close>

theorem workspace_deleted_when_removal_succeeds:
  "fs (fst (main w)) = rmtree (removal_refused w) (fs (fst (main_body w))) base_dir
   \<and> snd (main w) = snd (main_body w)
   \<and> trace (fst (main w)) =
       trace (fst (main_body w)) @ [Print ([newline] @ ''Performing final cleanup...''), Print ''Cleanup completed'']
   \<and> ((\<forall>q. below base_dir q \<longrightarrow> \<not> removal_refused w q) \<longrightarrow>
         map_of (fs (fst (main w))) base_dir \<noteq> Some Dir)
   \<and> ((\<forall>q. below base_dir q \<longrightarrow> \<not> removal_refused w q) \<and> (\<forall>c. map_of (fs w) base_dir \<noteq> Some (File c)) \<longrightarrow>
         \<not> path_exists (fs (fst (main w))) base_dir)"
proof (intro conjI impI)
  show "fs (fst (main w)) = rmtree (removal_refused w) (fs (fst (main_body w))) base_dir"
    by (rule main_eq(1))
  show "snd (main w) = snd (main_body w)"
    by (rule main_eq(2))
  show "trace (fst (main w)) =
       trace (fst (main_body w)) @ [Print ([newline] @ ''Performing final cleanup...''), Print ''Cleanup completed'']"
    by (rule main_eq(3))
next
  assume "\<forall>q. below base_dir q \<longrightarrow> \<not> removal_refused w q"
  then show "map_of (fs (fst (main w))) base_dir \<noteq> Some Dir"
    unfolding main_eq(1) by (intro rmtree_not_dir) simp
next
  assume a: "(\<forall>q. below base_dir q \<longrightarrow> \<not> removal_refused w q) \<and> (\<forall>c. map_of (fs w) base_dir \<noteq> Some (File c))"
  then have nd: "map_of (fs (fst (main w))) base_dir \<noteq> Some Dir"
    unfolding main_eq(1) by (intro rmtree_not_dir) simp
  from a main_body_keeps(2) [of w]
  have "map_of (fs (fst (main_body w))) base_dir = None \<or> map_of (fs (fst (main_body w))) base_dir = Some Dir"
    by simp
  with rmtree_lookup [of "removal_refused w" "fs (fst (main_body w))" base_dir base_dir]
  have "map_of (fs (fst (main w))) base_dir = None \<or> map_of (fs (fst (main w))) base_dir = Some Dir"
    unfolding main_eq(1) by auto
  with nd show "\<not> path_exists (fs (fst (main w))) base_dir"
    by (simp add: path_exists_def)
qed

text \<open>
  A run that starts with a workspace left by an earlier run, processes its tasks and
  ends without an error: the workspace is gone, with what was in it.
\<close>

theorem workspace_deleted_when_removal_succeeds_witness:
  "map_of (fs stale_workspace_world) base_dir = Some Dir
   \<and> snd (main stale_workspace_world) = Inr ()
   \<and> \<not> path_exists (fs (fst (main stale_workspace_world))) base_dir"
proof -
  have r: "\<forall>q. below base_dir q \<longrightarrow> \<not> removal_refused stale_workspace_world q"
    by (simp add: stale_workspace_world_def files_world_def example_world_def)
  have d: "map_of (fs stale_workspace_world) base_dir = Some Dir"
    by code_simp
  then have f: "\<forall>c. map_of (fs stale_workspace_world) base_dir \<noteq> Some (File c)"
    by simp
  have s: "snd (main stale_workspace_world) = Inr ()"
    by code_simp
  from workspace_deleted_when_removal_succeeds [of stale_workspace_world] r f d s
  show ?thesis by blast
qed

text \<open>
  The claim as it was stated fails where the removal fails: when the system refuses to
  remove one file of the workspace, the run ends without an error and the directory
  \<^verbatim>\<open>processing\<close> is still there, with that file; and when the path \<^verbatim>\<open>processing\<close> is a
  regular file, the run ends with an error and the file is still there.
\<close>

theorem workspace_left_behind_counterexample:
  "snd (main locked_workspace_world) = Inr ()
   \<and> map_of (fs (fst (main locked_workspace_world))) base_dir = Some Dir
   \<and> map_of (fs (fst (main locked_workspace_world))) ''processing/old.ts'' = Some (File ''x'')
   \<and> snd (main file_workspace_world) = Inl (FileExistsError ''processing'')
   \<and> map_of (fs (fst (main file_workspace_world))) base_dir = Some (File ''x'')
   \<and> path_exists (fs (fst (main file_workspace_world))) base_dir"
  by code_simp

text \<open>
  C1. Decryption and concatenation go by segment index. The decryptor runs
  \<^verbatim>\<open>openssl\<close> for the segments 0, 1, 2, ... in this order, one after the other, up to
  \<open>n - 1\<close> when no run fails (and up to the first run that fails otherwise). The list
  of files for the muxer is sorted by the number in each file name and has the same
  entries as the directory listing; and whatever the order in which the system lists a
  directory that holds the segment files of distinct indices \<open>js\<close>, the list names them
  in ascending index order (files listed as 3, 1, 2 are named 1, 2, 3). The text of the
  list has one line \<^verbatim>\<open>file 'segment{i}.ts'\<close> for each of them, in that order. The
  concatenation writes this text to \<^verbatim>\<open>filelist.txt\<close> in the decrypt directory and runs
  \<^verbatim>\<open>ffmpeg\<close> once, on that file: when the sorted list is \<open>segs\<close> and the file can be
  written, \<open>concat_segments\<close> prints its line, calls \<^verbatim>\<open>ffmpeg\<close> with the list file and the
  output file, and returns what the muxer makes of the text of \<open>segs\<close>; and whenever it
  returns an output file, the list file holds the text of the sorted list and the
  output file holds what the muxer made of it.
\<close>

theorem decrypt_and_concat_in_index_order:
  "(\<exists>m \<le> n.
       trace (fst (decrypt_segments w t iv k n)) =
         trace w @ Print ''Decrypting segments...'' # map (openssl_call t iv k) [0..<m]
     \<and> (snd (decrypt_segments w t iv k n) = Inr () \<longrightarrow> m = n))
   \<and> (sorted_segments w d = Inr segs \<longrightarrow>
         sorted (map segment_index segs) \<and> mset segs = mset (glob w d ''.ts''))
   \<and> (distinct js \<and> mset (glob w d ''.ts'') = mset (map (segment_file d) js) \<longrightarrow>
         sorted_segments w d = Inr (map (segment_file d) (sort js)))
   \<and> file_list_text (map (segment_file d) js) = concat (map list_line js)
   \<and> (sorted_segments w (decrypted_dir t) = Inr segs \<and> write_ok (fs w) (task_file_list t) \<longrightarrow>
         trace (fst (concat_segments w t)) =
           trace w @ [Print (''Creating '' @ output_file t), Ffmpeg (task_file_list t) (output_file t)]
       \<and> snd (concat_segments w t) =
           (case concatenate w (file_list_text segs)
                   (AList.update (task_file_list t) (File (file_list_text segs)) (fs w)) of
              Inl e \<Rightarrow> Inl (CalledProcessError (''ffmpeg: '' @ str_of_error e))
            | Inr media \<Rightarrow>
                (case write_file (AList.update (task_file_list t) (File (file_list_text segs)) (fs w))
                        (output_file t) media of
                   Inl e \<Rightarrow> Inl (CalledProcessError (''ffmpeg: '' @ str_of_error e))
                 | Inr f \<Rightarrow> Inr (output_file t))))
   \<and> (snd (concat_segments w t) = Inr out_file \<longrightarrow>
         (\<exists>sorted_files media.
             sorted_segments w (decrypted_dir t) = Inr sorted_files
           \<and> concatenate w (file_list_text sorted_files)
               (AList.update (task_file_list t) (File (file_list_text sorted_files)) (fs w)) = Inr media
           \<and> out_file = output_file t
           \<and> trace (fst (concat_segments w t)) =
               trace w @ [Print (''Creating '' @ output_file t), Ffmpeg (task_file_list t) (output_file t)]
           \<and> map_of (fs (fst (concat_segments w t))) =
               (map_of (fs w))(task_file_list t \<mapsto> File (file_list_text sorted_files),
                               output_file t \<mapsto> File media)))"
proof (intro conjI impI)
  show "\<exists>m \<le> n.
       trace (fst (decrypt_segments w t iv k n)) =
         trace w @ Print ''Decrypting segments...'' # map (openssl_call t iv k) [0..<m]
     \<and> (snd (decrypt_segments w t iv k n) = Inr () \<longrightarrow> m = n)"
    by (rule decrypt_segments_trace)
next
  assume "sorted_segments w d = Inr segs"
  then have "segs = sort_key segment_index (glob w d ''.ts'')"
    unfolding sorted_segments_def segment_index_def by (rule py_sorted_Inr)
  then show "sorted (map segment_index segs)" and "mset segs = mset (glob w d ''.ts'')"
    by simp_all
next
  assume "distinct js \<and> mset (glob w d ''.ts'') = mset (map (segment_file d) js)"
  then show "sorted_segments w d = Inr (map (segment_file d) (sort js))"
    by (simp add: sorted_segments_of_indices)
next
  show "file_list_text (map (segment_file d) js) = concat (map list_line js)"
    by (rule file_list_text_segment_files)
next
  assume a: "sorted_segments w (decrypted_dir t) = Inr segs \<and> write_ok (fs w) (task_file_list t)"
  then have s: "sorted_segments w (decrypted_dir t) = Inr segs" and ok: "write_ok (fs w) (task_file_list t)"
    by simp_all
  show "trace (fst (concat_segments w t)) =
           trace w @ [Print (''Creating '' @ output_file t), Ffmpeg (task_file_list t) (output_file t)]"
    using s ok by (rule concat_segments_run(1))
  show "snd (concat_segments w t) =
           (case concatenate w (file_list_text segs)
                   (AList.update (task_file_list t) (File (file_list_text segs)) (fs w)) of
              Inl e \<Rightarrow> Inl (CalledProcessError (''ffmpeg: '' @ str_of_error e))
            | Inr media \<Rightarrow>
                (case write_file (AList.update (task_file_list t) (File (file_list_text segs)) (fs w))
                        (output_file t) media of
                   Inl e \<Rightarrow> Inl (CalledProcessError (''ffmpeg: '' @ str_of_error e))
                 | Inr f \<Rightarrow> Inr (output_file t)))"
    using s ok by (rule concat_segments_run(2))
next
  assume "snd (concat_segments w t) = Inr out_file"
  then show "\<exists>sorted_files media.
             sorted_segments w (decrypted_dir t) = Inr sorted_files
           \<and> concatenate w (file_list_text sorted_files)
               (AList.update (task_file_list t) (File (file_list_text sorted_files)) (fs w)) = Inr media
           \<and> out_file = output_file t
           \<and> trace (fst (concat_segments w t)) =
               trace w @ [Print (''Creating '' @ output_file t), Ffmpeg (task_file_list t) (output_file t)]
           \<and> map_of (fs (fst (concat_segments w t))) =
               (map_of (fs w))(task_file_list t \<mapsto> File (file_list_text sorted_files),
                               output_file t \<mapsto> File media)"
    by (rule concat_segments_Inr)
qed

text \<open>
  A decrypt directory that the system lists as 2, 1, 3 (it holds the segments 3, 1, 2):
  the decryptor goes 0, 1, 2, the list is sorted to 1, 2, 3, and the concatenation
  writes the three lines of the list in this order and calls the muxer on them.
\<close>

theorem decrypt_and_concat_in_index_order_witness:
  "trace (fst (decrypt_segments listing_world (task_for ''inputfiles/v1.0.m3u8'' ''v'' ''1.0'') ''0a0b'' ''6b'' 3)) =
     [Print ''Decrypting segments...'',
      Openssl ''processing/downloaded_1.0/segment0.ts'' ''processing/decrypted_1.0/segment0.ts'' ''0a0b'' ''6b'',
      Openssl ''processing/downloaded_1.0/segment1.ts'' ''processing/decrypted_1.0/segment1.ts'' ''0a0b'' ''6b'',
      Openssl ''processing/downloaded_1.0/segment2.ts'' ''processing/decrypted_1.0/segment2.ts'' ''0a0b'' ''6b'']
   \<and> glob listing_world ''processing/decrypted_1.0'' ''.ts'' =
       [''processing/decrypted_1.0/segment2.ts'', ''processing/decrypted_1.0/segment1.ts'',
        ''processing/decrypted_1.0/segment3.ts'']
   \<and> sorted_segments listing_world ''processing/decrypted_1.0'' =
       Inr [''processing/decrypted_1.0/segment1.ts'', ''processing/decrypted_1.0/segment2.ts'',
            ''processing/decrypted_1.0/segment3.ts'']
   \<and> trace (fst (concat_segments listing_world (task_for ''inputfiles/v1.0.m3u8'' ''v'' ''1.0''))) =
       [Print ''Creating v 1.0.mp4'', Ffmpeg ''processing/decrypted_1.0/filelist.txt'' ''v 1.0.mp4'']
   \<and> snd (concat_segments listing_world (task_for ''inputfiles/v1.0.m3u8'' ''v'' ''1.0'')) = Inr ''v 1.0.mp4''
   \<and> map_of (fs (fst (concat_segments listing_world (task_for ''inputfiles/v1.0.m3u8'' ''v'' ''1.0''))))
        ''processing/decrypted_1.0/filelist.txt'' =
       Some (File (list_line 1 @ list_line 2 @ list_line 3))
   \<and> list_line 1 = ''file '' @ [squote] @ ''segment1.ts'' @ [squote] @ [newline]"
proof -
  let ?t = "task_for ''inputfiles/v1.0.m3u8'' ''v'' ''1.0''"
  let ?d = "''processing/decrypted_1.0''"
  have g: "glob listing_world ''processing/decrypted_1.0'' ''.ts'' =
       [''processing/decrypted_1.0/segment2.ts'', ''processing/decrypted_1.0/segment1.ts'',
        ''processing/decrypted_1.0/segment3.ts'']"
    by code_simp
  have f: "map (segment_file ''processing/decrypted_1.0'') [3, 1, 2] =
       [''processing/decrypted_1.0/segment3.ts'', ''processing/decrypted_1.0/segment1.ts'',
        ''processing/decrypted_1.0/segment2.ts'']"
    by code_simp
  have f': "map (segment_file ''processing/decrypted_1.0'') [1, 2, 3] =
       [''processing/decrypted_1.0/segment1.ts'', ''processing/decrypted_1.0/segment2.ts'',
        ''processing/decrypted_1.0/segment3.ts'']"
    by code_simp
  have h: "distinct [3, 1, 2 :: nat]
       \<and> mset (glob listing_world ''processing/decrypted_1.0'' ''.ts'') =
           mset (map (segment_file ''processing/decrypted_1.0'') [3, 1, 2])"
    unfolding g f by simp
  have s: "sort [3, 1, 2 :: nat] = [1, 2, 3]" by simp
  have d: "trace (fst (decrypt_segments listing_world ?t ''0a0b'' ''6b'' 3)) =
     [Print ''Decrypting segments...'',
      Openssl ''processing/downloaded_1.0/segment0.ts'' ''processing/decrypted_1.0/segment0.ts'' ''0a0b'' ''6b'',
      Openssl ''processing/downloaded_1.0/segment1.ts'' ''processing/decrypted_1.0/segment1.ts'' ''0a0b'' ''6b'',
      Openssl ''processing/downloaded_1.0/segment2.ts'' ''processing/decrypted_1.0/segment2.ts'' ''0a0b'' ''6b'']"
    by code_simp
  have dd: "decrypted_dir ?t = ''processing/decrypted_1.0''" by code_simp
  have fl: "task_file_list ?t = ''processing/decrypted_1.0/filelist.txt''" by code_simp
  have ou: "output_file ?t = ''v 1.0.mp4''" by code_simp
  have tr: "trace listing_world = []" by code_simp
  have ok: "write_ok (fs listing_world) (task_file_list ?t)" by code_simp
  have r: "snd (concat_segments listing_world ?t) = Inr ''v 1.0.mp4''" by code_simp
  have l1: "list_line 1 = ''file '' @ [squote] @ ''segment1.ts'' @ [squote] @ [newline]" by code_simp
  note A = decrypt_and_concat_in_index_order
             [where n = 3 and w = listing_world and t = ?t and d = ?d and js = "[3, 1, 2]"
                and segs = "map (segment_file ?d) [1, 2, 3]" and out_file = "''v 1.0.mp4''"]
  note B = decrypt_and_concat_in_index_order
             [where w = listing_world and t = ?t and d = ?d and js = "[1, 2, 3]"]
  from A h have ss: "sorted_segments listing_world ?d = Inr (map (segment_file ?d) [1, 2, 3])"
    unfolding s by blast
  from B have tx: "file_list_text (map (segment_file ?d) [1, 2, 3]) = concat (map list_line [1, 2, 3])"
    by blast
  from A ss ok have "trace (fst (concat_segments listing_world ?t)) =
           trace listing_world @ [Print (''Creating '' @ output_file ?t), Ffmpeg (task_file_list ?t) (output_file ?t)]"
    unfolding dd by blast
  then have t: "trace (fst (concat_segments listing_world ?t)) =
       [Print ''Creating v 1.0.mp4'', Ffmpeg ''processing/decrypted_1.0/filelist.txt'' ''v 1.0.mp4'']"
    unfolding fl ou tr by simp
  from A r obtain sorted_files media
    where 1: "sorted_segments listing_world (decrypted_dir ?t) = Inr sorted_files"
      and 2: "map_of (fs (fst (concat_segments listing_world ?t))) =
               (map_of (fs listing_world))(task_file_list ?t \<mapsto> File (file_list_text sorted_files),
                               output_file ?t \<mapsto> File media)"
    by blast
  from 1 ss have sf: "sorted_files = map (segment_file ?d) [1, 2, 3]"
    unfolding dd by simp
  have "map_of (fs (fst (concat_segments listing_world ?t))) ''processing/decrypted_1.0/filelist.txt'' =
          Some (File (concat (map list_line [1, 2, 3])))"
    unfolding 2 sf tx fl ou by simp
  then have c: "map_of (fs (fst (concat_segments listing_world ?t))) ''processing/decrypted_1.0/filelist.txt'' =
          Some (File (list_line 1 @ list_line 2 @ list_line 3))"
    by simp
  from d g ss t r c l1 show ?thesis
    unfolding f' by blast
qed

end
